theory Spec2Isabelle
  imports Main "HOL-Library.Word" "HOL-Library.Monad_Syntax" "HOL-Library.Multiset"
begin

unbundle bit_operations_syntax

section \<open>Machine model\<close>

text \<open>
  The allocator of \<^verbatim>\<open>mm.c\<close> works on raw bytes: block headers and footers are
  32-bit words, the red-black tree node inside a free block holds three 8-byte
  pointers and a one-byte colour, and the same bytes are the user's payload
  while the block is allocated.  The model therefore keeps a byte-addressed
  memory.  Addresses are natural numbers (\<open>NULL\<close> is \<open>0\<close>), words are stored
  little-endian as on the x86-64 target of the lab, and a stored pointer is
  8 bytes wide.  The globals of \<^verbatim>\<open>mm.c\<close> (\<^verbatim>\<open>heap_listp\<close>, \<^verbatim>\<open>root\<close>, \<^verbatim>\<open>NIL\<close>)
  and the break of the memory provider are fields of the state.
\<close>

type_synonym addr = nat
type_synonym byte = "8 word"
type_synonym u32 = "32 word"

record state =
  mem :: "addr \<Rightarrow> byte"
  mem_brk :: addr
  mem_max_addr :: addr
  heap_listp :: addr
  NIL :: addr
  root :: addr

abbreviation (input) WSIZE :: "'a::numeral" where "WSIZE \<equiv> 4"
abbreviation (input) DSIZE :: "'a::numeral" where "DSIZE \<equiv> 8"
abbreviation (input) CHUNKSIZE :: "'a::numeral" where "CHUNKSIZE \<equiv> 4096"
abbreviation (input) OVERHEAD :: "'a::numeral" where "OVERHEAD \<equiv> 8"
abbreviation (input) MINBLOCKSIZE :: "'a::numeral" where "MINBLOCKSIZE \<equiv> 48"
abbreviation (input) RED :: int where "RED \<equiv> 1"
abbreviation (input) BLACK :: int where "BLACK \<equiv> 0"
abbreviation (input) NULL :: addr where "NULL \<equiv> 0"

text \<open>\<open>(void *)-1\<close>, the failure value of \<^verbatim>\<open>mem_sbrk\<close>, as a 64-bit address.\<close>

abbreviation (input) SBRK_FAILED :: addr where "SBRK_FAILED \<equiv> 18446744073709551615"

text \<open>
  Modelled from the spec: the byte-region provider \<^verbatim>\<open>mem_sbrk\<close> of \<^verbatim>\<open>memlib.c\<close>,
  which is not part of the source file.  The spec gives it as
  \<open>extend(nbytes) \<rightarrow> pointer to newly mapped range | sentinel value indicating failure\<close>:
  the region grows upward, the old break is returned, and a request that does
  not fit (or is negative, the argument being a C \<^verbatim>\<open>int\<close>) is refused without
  any change.
\<close>

definition mem_sbrk :: "state \<Rightarrow> int \<Rightarrow> addr \<times> state" where
  "mem_sbrk s incr =
     (if incr < 0 \<or> mem_brk s + nat incr > mem_max_addr s then (SBRK_FAILED, s)
      else (mem_brk s, s\<lparr>mem_brk := mem_brk s + nat incr\<rparr>))"

text \<open>\<^verbatim>\<open>static inline int MAX(int x, int y)\<close>: the arguments are C \<^verbatim>\<open>int\<close>s.\<close>

definition MAX_int :: "int \<Rightarrow> int \<Rightarrow> int" where
  "MAX_int x y = (if x > y then x else y)"

definition PACK :: "u32 \<Rightarrow> int \<Rightarrow> u32" where
  "PACK sz alloc = (sz OR word_of_int (alloc AND 1))"

definition GET :: "state \<Rightarrow> addr \<Rightarrow> u32" where
  "GET s p = word_of_nat (unat (mem s p) + 256 * unat (mem s (p + 1))
               + 65536 * unat (mem s (p + 2)) + 16777216 * unat (mem s (p + 3)))"

definition PUT :: "state \<Rightarrow> addr \<Rightarrow> u32 \<Rightarrow> state" where
  "PUT s p val = s\<lparr>mem := (mem s)
      (p := word_of_nat (unat val),
       p + 1 := word_of_nat (unat val div 256),
       p + 2 := word_of_nat (unat val div 65536),
       p + 3 := word_of_nat (unat val div 16777216))\<rparr>"

definition GET_SIZE :: "state \<Rightarrow> addr \<Rightarrow> u32" where
  "GET_SIZE s p = GET s p AND NOT 7"

definition GET_ALLOC :: "state \<Rightarrow> addr \<Rightarrow> int" where
  "GET_ALLOC s p = sint (GET s p AND 1)"

definition HDRP :: "addr \<Rightarrow> addr" where
  "HDRP bp = bp - WSIZE"

definition FTRP :: "state \<Rightarrow> addr \<Rightarrow> addr" where
  "FTRP s bp = bp + unat (GET_SIZE s (HDRP bp)) - DSIZE"

definition NEXT_BLKP :: "state \<Rightarrow> addr \<Rightarrow> addr" where
  "NEXT_BLKP s bp = bp + unat (GET_SIZE s (bp - WSIZE))"

definition PREV_BLKP :: "state \<Rightarrow> addr \<Rightarrow> addr" where
  "PREV_BLKP s bp = bp - unat (GET_SIZE s (bp - DSIZE))"

text \<open>An 8-byte pointer cell (\<^verbatim>\<open>char **\<close>), read and written little-endian.\<close>

definition load_ptr :: "state \<Rightarrow> addr \<Rightarrow> addr" where
  "load_ptr s p = unat (mem s p) + 256 * (unat (mem s (p + 1)) + 256 * (unat (mem s (p + 2))
     + 256 * (unat (mem s (p + 3)) + 256 * (unat (mem s (p + 4)) + 256 * (unat (mem s (p + 5))
     + 256 * (unat (mem s (p + 6)) + 256 * unat (mem s (p + 7))))))))"

definition store_ptr :: "state \<Rightarrow> addr \<Rightarrow> addr \<Rightarrow> state" where
  "store_ptr s p v = s\<lparr>mem := (mem s)
      (p := word_of_nat v,
       p + 1 := word_of_nat (v div 256),
       p + 2 := word_of_nat (v div 65536),
       p + 3 := word_of_nat (v div 16777216),
       p + 4 := word_of_nat (v div 4294967296),
       p + 5 := word_of_nat (v div 1099511627776),
       p + 6 := word_of_nat (v div 281474976710656),
       p + 7 := word_of_nat (v div 72057594037927936))\<rparr>"

text \<open>
  The node macros.  \<^verbatim>\<open>PARENT(bp)\<close>, \<^verbatim>\<open>LEFT(bp)\<close> and \<^verbatim>\<open>RIGHT(bp)\<close> are lvalues in C;
  a read is the macro's name, an assignment is \<open>SET_\<close> and the name.
\<close>

definition PARENT :: "state \<Rightarrow> addr \<Rightarrow> addr" where
  "PARENT s bp = load_ptr s bp"

definition LEFT :: "state \<Rightarrow> addr \<Rightarrow> addr" where
  "LEFT s bp = load_ptr s (bp + DSIZE)"

definition RIGHT :: "state \<Rightarrow> addr \<Rightarrow> addr" where
  "RIGHT s bp = load_ptr s (bp + 2 * DSIZE)"

definition COLOR :: "state \<Rightarrow> addr \<Rightarrow> int" where
  "COLOR s bp = uint (mem s (bp + 3 * DSIZE))"

definition SET_PARENT :: "state \<Rightarrow> addr \<Rightarrow> addr \<Rightarrow> state" where
  "SET_PARENT s bp v = store_ptr s bp v"

definition SET_LEFT :: "state \<Rightarrow> addr \<Rightarrow> addr \<Rightarrow> state" where
  "SET_LEFT s bp v = store_ptr s (bp + DSIZE) v"

definition SET_RIGHT :: "state \<Rightarrow> addr \<Rightarrow> addr \<Rightarrow> state" where
  "SET_RIGHT s bp v = store_ptr s (bp + 2 * DSIZE) v"

definition SET_COLOR :: "state \<Rightarrow> addr \<Rightarrow> int \<Rightarrow> state" where
  "SET_COLOR s bp c = s\<lparr>mem := (mem s)(bp + 3 * DSIZE := word_of_int c)\<rparr>"

text \<open>\<^verbatim>\<open>memcpy(dst, src, n)\<close> on non-overlapping ranges.\<close>

definition memcpy :: "state \<Rightarrow> addr \<Rightarrow> addr \<Rightarrow> nat \<Rightarrow> state" where
  "memcpy s dst src n =
     s\<lparr>mem := (\<lambda>a. if dst \<le> a \<and> a < dst + n then mem s (src + (a - dst)) else mem s a)\<rparr>"

section \<open>Red-black tree routines\<close>

definition left_rotate :: "state \<Rightarrow> addr \<Rightarrow> state" where
  "left_rotate s x =
     (let y = RIGHT s x;
          s = SET_RIGHT s x (LEFT s y);
          s = (if LEFT s y \<noteq> NIL s then SET_PARENT s (LEFT s y) x else s);
          s = SET_PARENT s y (PARENT s x);
          s = (if PARENT s x = NIL s then s\<lparr>root := y\<rparr>
               else if x = LEFT s (PARENT s x) then SET_LEFT s (PARENT s x) y
               else SET_RIGHT s (PARENT s x) y);
          s = SET_LEFT s y x;
          s = SET_PARENT s x y
      in s)"

definition right_rotate :: "state \<Rightarrow> addr \<Rightarrow> state" where
  "right_rotate s x =
     (let y = LEFT s x;
          s = SET_LEFT s x (RIGHT s y);
          s = (if RIGHT s y \<noteq> NIL s then SET_PARENT s (RIGHT s y) x else s);
          s = SET_PARENT s y (PARENT s x);
          s = (if PARENT s x = NIL s then s\<lparr>root := y\<rparr>
               else if x = RIGHT s (PARENT s x) then SET_RIGHT s (PARENT s x) y
               else SET_LEFT s (PARENT s x) y);
          s = SET_RIGHT s y x;
          s = SET_PARENT s x y
      in s)"

text \<open>
  The loops of the tree walk over pointers read from memory, and nothing in the
  code bounds them: on a cyclic structure they run forever.  Each loop is a
  partial function into \<open>option\<close>; \<open>None\<close> is the loop that does not return.
\<close>

partial_function (option) rbt_insert_loop :: "state \<Rightarrow> u32 \<Rightarrow> addr \<Rightarrow> addr \<Rightarrow> addr option" where
  "rbt_insert_loop s sz y x =
     (if x \<noteq> NIL s then
        (let y = x;
             x_size = GET_SIZE s (HDRP x)
         in if sz < x_size then rbt_insert_loop s sz y (LEFT s x)
            else rbt_insert_loop s sz y (RIGHT s x))
      else Some y)"

declare rbt_insert_loop.simps [code]

partial_function (option) rbt_insert_fixup_loop :: "state \<Rightarrow> addr \<Rightarrow> (state \<times> addr) option" where
  "rbt_insert_fixup_loop s bp =
     (if bp \<noteq> root s \<and> COLOR s (PARENT s bp) = RED then
        (if PARENT s bp = LEFT s (PARENT s (PARENT s bp)) then
           (let uncle = RIGHT s (PARENT s (PARENT s bp)) in
            if COLOR s uncle = RED then
              (let s = SET_COLOR s (PARENT s bp) BLACK;
                   s = SET_COLOR s uncle BLACK;
                   s = SET_COLOR s (PARENT s (PARENT s bp)) RED;
                   bp = PARENT s (PARENT s bp)
               in rbt_insert_fixup_loop s bp)
            else
              (let (s, bp) = (if bp = RIGHT s (PARENT s bp)
                              then (let bp = PARENT s bp in (left_rotate s bp, bp))
                              else (s, bp));
                   s = SET_COLOR s (PARENT s bp) BLACK;
                   s = SET_COLOR s (PARENT s (PARENT s bp)) RED;
                   s = right_rotate s (PARENT s (PARENT s bp))
               in rbt_insert_fixup_loop s bp))
         else
           (let uncle = LEFT s (PARENT s (PARENT s bp)) in
            if COLOR s uncle = RED then
              (let s = SET_COLOR s (PARENT s bp) BLACK;
                   s = SET_COLOR s uncle BLACK;
                   s = SET_COLOR s (PARENT s (PARENT s bp)) RED;
                   bp = PARENT s (PARENT s bp)
               in rbt_insert_fixup_loop s bp)
            else
              (let (s, bp) = (if bp = LEFT s (PARENT s bp)
                              then (let bp = PARENT s bp in (right_rotate s bp, bp))
                              else (s, bp));
                   s = SET_COLOR s (PARENT s bp) BLACK;
                   s = SET_COLOR s (PARENT s (PARENT s bp)) RED;
                   s = left_rotate s (PARENT s (PARENT s bp))
               in rbt_insert_fixup_loop s bp)))
      else Some (s, bp))"

declare rbt_insert_fixup_loop.simps [code]

definition rbt_insert_fixup :: "state \<Rightarrow> addr \<Rightarrow> state option" where
  "rbt_insert_fixup s bp =
     do { (s, bp) \<leftarrow> rbt_insert_fixup_loop s bp;
          Some (SET_COLOR s (root s) BLACK) }"

definition rbt_insert :: "state \<Rightarrow> addr \<Rightarrow> state option" where
  "rbt_insert s bp =
     (let sz = GET_SIZE s (HDRP bp) in
      do { y \<leftarrow> rbt_insert_loop s sz (NIL s) (root s);
           let s = SET_PARENT s bp y;
           let s = (if y = NIL s then s\<lparr>root := bp\<rparr>
                    else (let y_size = GET_SIZE s (HDRP y) in
                          if sz < y_size then SET_LEFT s y bp else SET_RIGHT s y bp));
           let s = SET_COLOR s bp RED;
           rbt_insert_fixup s bp })"

definition rbt_transplant :: "state \<Rightarrow> addr \<Rightarrow> addr \<Rightarrow> state" where
  "rbt_transplant s u v =
     (let s = (if PARENT s u = NIL s then s\<lparr>root := v\<rparr>
               else if u = LEFT s (PARENT s u) then SET_LEFT s (PARENT s u) v
               else SET_RIGHT s (PARENT s u) v)
      in SET_PARENT s v (PARENT s u))"

partial_function (option) rbt_minimum :: "state \<Rightarrow> addr \<Rightarrow> addr option" where
  "rbt_minimum s node =
     (if LEFT s node \<noteq> NIL s then rbt_minimum s (LEFT s node) else Some node)"

declare rbt_minimum.simps [code]

partial_function (option) rbt_remove_fixup_loop :: "state \<Rightarrow> addr \<Rightarrow> (state \<times> addr) option" where
  "rbt_remove_fixup_loop s x =
     (if x \<noteq> root s \<and> COLOR s x = BLACK then
        (if x = LEFT s (PARENT s x) then
           (let w = RIGHT s (PARENT s x);
                (s, w) = (if COLOR s w = RED
                          then (let s = SET_COLOR s w BLACK;
                                    s = SET_COLOR s (PARENT s x) RED;
                                    s = left_rotate s (PARENT s x);
                                    w = RIGHT s (PARENT s x)
                                in (s, w))
                          else (s, w))
            in if COLOR s (LEFT s w) = BLACK \<and> COLOR s (RIGHT s w) = BLACK then
                 (let s = SET_COLOR s w RED;
                      x = PARENT s x
                  in rbt_remove_fixup_loop s x)
               else
                 (let (s, w) = (if COLOR s (RIGHT s w) = BLACK
                                then (let s = SET_COLOR s (LEFT s w) BLACK;
                                          s = SET_COLOR s w RED;
                                          s = right_rotate s w;
                                          w = RIGHT s (PARENT s x)
                                      in (s, w))
                                else (s, w));
                      s = SET_COLOR s w (COLOR s (PARENT s x));
                      s = SET_COLOR s (PARENT s x) BLACK;
                      s = SET_COLOR s (RIGHT s w) BLACK;
                      s = left_rotate s (PARENT s x);
                      x = root s
                  in rbt_remove_fixup_loop s x))
         else
           (let w = LEFT s (PARENT s x);
                (s, w) = (if COLOR s w = RED
                          then (let s = SET_COLOR s w BLACK;
                                    s = SET_COLOR s (PARENT s x) RED;
                                    s = right_rotate s (PARENT s x);
                                    w = LEFT s (PARENT s x)
                                in (s, w))
                          else (s, w))
            in if COLOR s (RIGHT s w) = BLACK \<and> COLOR s (LEFT s w) = BLACK then
                 (let s = SET_COLOR s w RED;
                      x = PARENT s x
                  in rbt_remove_fixup_loop s x)
               else
                 (let (s, w) = (if COLOR s (LEFT s w) = BLACK
                                then (let s = SET_COLOR s (RIGHT s w) BLACK;
                                          s = SET_COLOR s w RED;
                                          s = left_rotate s w;
                                          w = LEFT s (PARENT s x)
                                      in (s, w))
                                else (s, w));
                      s = SET_COLOR s w (COLOR s (PARENT s x));
                      s = SET_COLOR s (PARENT s x) BLACK;
                      s = SET_COLOR s (LEFT s w) BLACK;
                      s = right_rotate s (PARENT s x);
                      x = root s
                  in rbt_remove_fixup_loop s x)))
      else Some (s, x))"

declare rbt_remove_fixup_loop.simps [code]

definition rbt_remove_fixup :: "state \<Rightarrow> addr \<Rightarrow> state option" where
  "rbt_remove_fixup s x =
     do { (s, x) \<leftarrow> rbt_remove_fixup_loop s x;
          Some (SET_COLOR s x BLACK) }"

definition rbt_remove :: "state \<Rightarrow> addr \<Rightarrow> state option" where
  "rbt_remove s bp =
     (let y = bp;
          y_original_color = COLOR s y
      in do {
        (s, y_original_color, x) \<leftarrow>
          (if LEFT s bp = NIL s then
             (let x = RIGHT s bp;
                  s = rbt_transplant s bp (RIGHT s bp)
              in Some (s, y_original_color, x))
           else if RIGHT s bp = NIL s then
             (let x = LEFT s bp;
                  s = rbt_transplant s bp (LEFT s bp)
              in Some (s, y_original_color, x))
           else do {
             m \<leftarrow> rbt_minimum s (RIGHT s bp);
             let y = m;
             let y_original_color = COLOR s y;
             let x = RIGHT s y;
             let s = (if PARENT s y = bp then SET_PARENT s x y
                      else (let s = rbt_transplant s y (RIGHT s y);
                                s = SET_RIGHT s y (RIGHT s bp);
                                s = SET_PARENT s (RIGHT s y) y
                            in s));
             let s = rbt_transplant s bp y;
             let s = SET_LEFT s y (LEFT s bp);
             let s = SET_PARENT s (LEFT s y) y;
             let s = SET_COLOR s y (COLOR s bp);
             Some (s, y_original_color, x) });
        if y_original_color = BLACK then rbt_remove_fixup s x else Some s })"

text \<open>
  \<^verbatim>\<open>rbt_find_best_fit(node, asize, &best_fit)\<close>: the fourth argument is the value
  of \<^verbatim>\<open>*best_fit\<close> on entry, the result its value on return (which is also what
  the C function returns).
\<close>

partial_function (option) rbt_find_best_fit :: "state \<Rightarrow> addr \<Rightarrow> u32 \<Rightarrow> addr \<Rightarrow> addr option" where
  "rbt_find_best_fit s node asize best_fit =
     (if node = NIL s then Some best_fit
      else
        (let nsize = GET_SIZE s (HDRP node) in
         if nsize \<ge> asize then
           (let best_fit = (if best_fit = NULL \<or> nsize < GET_SIZE s (HDRP best_fit)
                            then node else best_fit)
            in rbt_find_best_fit s (LEFT s node) asize best_fit)
         else rbt_find_best_fit s (RIGHT s node) asize best_fit))"

declare rbt_find_best_fit.simps [code]

section \<open>The allocator\<close>

definition insert_free_block :: "state \<Rightarrow> addr \<Rightarrow> u32 \<Rightarrow> state option" where
  "insert_free_block s bp sz =
     (let s = SET_PARENT s bp (NIL s);
          s = SET_LEFT s bp (NIL s);
          s = SET_RIGHT s bp (NIL s);
          s = SET_COLOR s bp RED
      in rbt_insert s bp)"

definition remove_free_block :: "state \<Rightarrow> addr \<Rightarrow> state option" where
  "remove_free_block s bp = rbt_remove s bp"

definition find_fit :: "state \<Rightarrow> u32 \<Rightarrow> addr option" where
  "find_fit s asize = rbt_find_best_fit s (root s) asize NULL"

definition coalesce :: "state \<Rightarrow> addr \<Rightarrow> (addr \<times> state) option" where
  "coalesce s bp =
     (let prev_alloc = GET_ALLOC s (FTRP s (PREV_BLKP s bp));
          next_alloc = GET_ALLOC s (HDRP (NEXT_BLKP s bp));
          sz = GET_SIZE s (HDRP bp)
      in do {
        (s, bp, sz) \<leftarrow>
          (if prev_alloc \<noteq> 0 \<and> next_alloc \<noteq> 0 then Some (s, bp, sz)
           else if prev_alloc \<noteq> 0 \<and> next_alloc = 0 then do {
             s \<leftarrow> remove_free_block s (NEXT_BLKP s bp);
             let sz = sz + GET_SIZE s (HDRP (NEXT_BLKP s bp));
             let s = PUT s (HDRP bp) (PACK sz 0);
             let s = PUT s (FTRP s bp) (PACK sz 0);
             Some (s, bp, sz) }
           else if prev_alloc = 0 \<and> next_alloc \<noteq> 0 then do {
             s \<leftarrow> remove_free_block s (PREV_BLKP s bp);
             let sz = sz + GET_SIZE s (HDRP (PREV_BLKP s bp));
             let s = PUT s (FTRP s bp) (PACK sz 0);
             let s = PUT s (HDRP (PREV_BLKP s bp)) (PACK sz 0);
             let bp = PREV_BLKP s bp;
             Some (s, bp, sz) }
           else do {
             s \<leftarrow> remove_free_block s (PREV_BLKP s bp);
             s \<leftarrow> remove_free_block s (NEXT_BLKP s bp);
             let sz = sz + (GET_SIZE s (HDRP (PREV_BLKP s bp))
                            + GET_SIZE s (FTRP s (NEXT_BLKP s bp)));
             let s = PUT s (HDRP (PREV_BLKP s bp)) (PACK sz 0);
             let s = PUT s (FTRP s (NEXT_BLKP s bp)) (PACK sz 0);
             let bp = PREV_BLKP s bp;
             Some (s, bp, sz) });
        s \<leftarrow> insert_free_block s bp sz;
        Some (bp, s) })"

definition extend_heap :: "state \<Rightarrow> u32 \<Rightarrow> (addr \<times> state) option" where
  "extend_heap s words =
     (let sz = (if words mod 2 \<noteq> 0 then (words + 1) * WSIZE else words * WSIZE);
          (bp, s) = mem_sbrk s (sint sz)
      in if bp = SBRK_FAILED then Some (NULL, s)
         else
           (let s = PUT s (HDRP bp) (PACK sz 0);
                s = PUT s (FTRP s bp) (PACK sz 0);
                s = PUT s (HDRP (NEXT_BLKP s bp)) (PACK 0 1)
            in coalesce s bp))"

definition mm_init :: "state \<Rightarrow> (int \<times> state) option" where
  "mm_init s =
     (let s = SET_PARENT s (NIL s) (NIL s);
          s = SET_LEFT s (NIL s) (NIL s);
          s = SET_RIGHT s (NIL s) (NIL s);
          s = SET_COLOR s (NIL s) BLACK;
          s = s\<lparr>root := NIL s\<rparr>;
          (p, s) = mem_sbrk s (4 * WSIZE);
          s = s\<lparr>heap_listp := p\<rparr>
      in if heap_listp s = SBRK_FAILED then Some (- 1, s)
         else
           (let s = PUT s (heap_listp s) 0;
                s = PUT s (heap_listp s + (1 * WSIZE)) (PACK DSIZE 1);
                s = PUT s (heap_listp s + (2 * WSIZE)) (PACK DSIZE 1);
                s = PUT s (heap_listp s + (3 * WSIZE)) (PACK 0 1);
                s = s\<lparr>heap_listp := heap_listp s + (2 * WSIZE)\<rparr>
            in do {
              (bp, s) \<leftarrow> extend_heap s (CHUNKSIZE div WSIZE);
              if bp = NULL then Some (- 1, s) else Some (0, s) }))"

definition place :: "state \<Rightarrow> addr \<Rightarrow> u32 \<Rightarrow> state option" where
  "place s bp asize =
     (let csize = GET_SIZE s (HDRP bp) in
      do {
        s \<leftarrow> remove_free_block s bp;
        if (csize - asize) \<ge> MINBLOCKSIZE then
          (let s = PUT s (HDRP bp) (PACK asize 1);
               s = PUT s (FTRP s bp) (PACK asize 1);
               new_bp = NEXT_BLKP s bp;
               s = PUT s (HDRP new_bp) (PACK (csize - asize) 0);
               s = PUT s (FTRP s new_bp) (PACK (csize - asize) 0)
           in insert_free_block s new_bp (csize - asize))
        else
          (let s = PUT s (HDRP bp) (PACK csize 1);
               s = PUT s (FTRP s bp) (PACK csize 1)
           in Some s) })"

text \<open>
  The adjusted size of a request, as \<^verbatim>\<open>mm_malloc\<close> and \<^verbatim>\<open>mm_realloc\<close> both compute
  it: unsigned 32-bit arithmetic, then \<^verbatim>\<open>MAX\<close> on \<^verbatim>\<open>int\<close>s (the conversion of a
  value above \<^verbatim>\<open>INT_MAX\<close> wraps to a negative number on the lab's compiler), and
  the result stored back into a \<^verbatim>\<open>uint32_t\<close>.
\<close>

definition adjust_size :: "u32 \<Rightarrow> u32" where
  "adjust_size sz =
     (let asize = (if sz \<le> DSIZE then 2 * DSIZE
                   else DSIZE * ((sz + DSIZE + (DSIZE - 1)) div DSIZE))
      in word_of_int (MAX_int (sint asize) MINBLOCKSIZE))"

definition mm_malloc :: "state \<Rightarrow> u32 \<Rightarrow> (addr \<times> state) option" where
  "mm_malloc s sz =
     (if sz = 0 then Some (NULL, s)
      else
        (let asize = adjust_size sz in
         do {
           bp \<leftarrow> find_fit s asize;
           if bp \<noteq> NULL then do { s \<leftarrow> place s bp asize; Some (bp, s) }
           else
             (let extendsize = (word_of_int (MAX_int (sint asize) CHUNKSIZE) :: u32) in
              do {
                (bp, s) \<leftarrow> extend_heap s (extendsize div WSIZE);
                if bp = NULL then Some (NULL, s)
                else do { s \<leftarrow> place s bp asize; Some (bp, s) } }) }))"

definition mm_free :: "state \<Rightarrow> addr \<Rightarrow> state option" where
  "mm_free s bp =
     (if bp = NULL then Some s
      else
        (let sz = GET_SIZE s (HDRP bp);
             s = PUT s (HDRP bp) (PACK sz 0);
             s = PUT s (FTRP s bp) (PACK sz 0)
         in do { (bp, s) \<leftarrow> coalesce s bp; Some s }))"

definition mm_realloc :: "state \<Rightarrow> addr \<Rightarrow> u32 \<Rightarrow> (addr \<times> state) option" where
  "mm_realloc s ptr sz =
     (if sz = 0 then do { s \<leftarrow> mm_free s ptr; Some (NULL, s) }
      else if ptr = NULL then mm_malloc s sz
      else
        (let old_size = GET_SIZE s (HDRP ptr) - DSIZE;
             asize = adjust_size sz
         in if asize \<le> GET_SIZE s (HDRP ptr) then
              (let csize = GET_SIZE s (HDRP ptr) in
               if (csize - asize) \<ge> MINBLOCKSIZE then
                 (let s = PUT s (HDRP ptr) (PACK asize 1);
                      s = PUT s (FTRP s ptr) (PACK asize 1);
                      new_bp = NEXT_BLKP s ptr;
                      s = PUT s (HDRP new_bp) (PACK (csize - asize) 0);
                      s = PUT s (FTRP s new_bp) (PACK (csize - asize) 0)
                  in do { s \<leftarrow> insert_free_block s new_bp (csize - asize); Some (ptr, s) })
               else Some (ptr, s))
            else
              (let csize = GET_SIZE s (HDRP ptr);
                   next_bp = NEXT_BLKP s ptr
               in if GET_ALLOC s (HDRP next_bp) = 0
                     \<and> GET_SIZE s (HDRP next_bp) + csize \<ge> asize then
                    do {
                      s \<leftarrow> remove_free_block s next_bp;
                      let new_size = csize + GET_SIZE s (HDRP next_bp);
                      let s = PUT s (HDRP ptr) (PACK new_size 1);
                      let s = PUT s (FTRP s ptr) (PACK new_size 1);
                      if (new_size - asize) \<ge> MINBLOCKSIZE then
                        (let s = PUT s (HDRP ptr) (PACK asize 1);
                             s = PUT s (FTRP s ptr) (PACK asize 1);
                             new_bp = NEXT_BLKP s ptr;
                             s = PUT s (HDRP new_bp) (PACK (new_size - asize) 0);
                             s = PUT s (FTRP s new_bp) (PACK (new_size - asize) 0)
                         in do { s \<leftarrow> insert_free_block s new_bp (new_size - asize);
                                 Some (ptr, s) })
                      else Some (ptr, s) }
                  else
                    do {
                      (new_ptr, s) \<leftarrow> mm_malloc s sz;
                      if new_ptr = NULL then Some (NULL, s)
                      else
                        (let copy_size = (if sz < old_size then sz else old_size);
                             s = memcpy s new_ptr ptr (unat copy_size)
                         in do { s \<leftarrow> mm_free s ptr; Some (new_ptr, s) }) })))"

section \<open>Observing a heap\<close>

text \<open>
  The blocks between the prologue and the epilogue, as a heap checker walks
  them: from a block pointer, \<^verbatim>\<open>NEXT_BLKP\<close> after \<^verbatim>\<open>NEXT_BLKP\<close> until the header of
  size \<open>0\<close>.  Each block is listed with its size and its allocated bit.
\<close>

partial_function (option) heap_walk :: "state \<Rightarrow> addr \<Rightarrow> (addr \<times> u32 \<times> int) list option" where
  "heap_walk s bp =
     (if GET_SIZE s (HDRP bp) = 0 then Some []
      else do { bs \<leftarrow> heap_walk s (NEXT_BLKP s bp);
                Some ((bp, GET_SIZE s (HDRP bp), GET_ALLOC s (HDRP bp)) # bs) })"

declare heap_walk.simps [code]

definition heap_blocks :: "state \<Rightarrow> (addr \<times> u32 \<times> int) list option" where
  "heap_blocks s = heap_walk s (NEXT_BLKP s (heap_listp s))"

text \<open>The nodes reachable from a tree pointer, in order.\<close>

partial_function (option) tree_walk :: "state \<Rightarrow> addr \<Rightarrow> addr list option" where
  "tree_walk s node =
     (if node = NIL s then Some []
      else do { l \<leftarrow> tree_walk s (LEFT s node);
                r \<leftarrow> tree_walk s (RIGHT s node);
                Some (l @ node # r) })"

declare tree_walk.simps [code]

text \<open>
  The machine before \<^verbatim>\<open>mm_init\<close>: the provider's region is the 20 MB from address
  65536 on, still empty; the static \<^verbatim>\<open>nil_node\<close> lies at 32768; the globals are
  zero; the memory holds any bytes \<open>m0\<close>.
\<close>

definition boot :: "(addr \<Rightarrow> byte) \<Rightarrow> state" where
  "boot m0 = \<lparr>mem = m0, mem_brk = 65536, mem_max_addr = 65536 + 20971520,
              heap_listp = 0, NIL = 32768, root = 0\<rparr>"

text \<open>The mutator storing one byte into memory it owns.\<close>

definition user_store :: "state \<Rightarrow> addr \<Rightarrow> byte \<Rightarrow> state" where
  "user_store s a v = s\<lparr>mem := (mem s)(a := v)\<rparr>"

section \<open>Reading after writing\<close>

lemma split256: "(n::nat) div a mod 256 + 256 * (n div (a * 256)) = n div a"
  by (simp add: div_mult2_eq)

lemma bytes4:
  assumes "n < 4294967296"
  shows "n mod 256 + 256 * (n div 256 mod 256) + 65536 * (n div 65536 mod 256)
           + 16777216 * (n div 16777216 mod 256) = (n::nat)"
proof -
  have a: "n div 16777216 mod 256 = n div 16777216" using assms by simp
  have b: "n div 65536 mod 256 + 256 * (n div 16777216) = n div 65536"
    using split256 [of n 65536] by simp
  have c: "n div 256 mod 256 + 256 * (n div 65536) = n div 256"
    using split256 [of n 256] by simp
  have d: "n mod 256 + 256 * (n div 256) = n" by simp
  show ?thesis using a b c d by linarith
qed

lemma bytes8:
  assumes "n < 18446744073709551616"
  shows "n mod 256 + 256 * (n div 256 mod 256 + 256 * (n div 65536 mod 256
     + 256 * (n div 16777216 mod 256 + 256 * (n div 4294967296 mod 256
     + 256 * (n div 1099511627776 mod 256 + 256 * (n div 281474976710656 mod 256
     + 256 * (n div 72057594037927936 mod 256))))))) = (n::nat)"
proof -
  have a: "n div 72057594037927936 mod 256 = n div 72057594037927936" using assms by simp
  have b: "n div 281474976710656 mod 256 + 256 * (n div 72057594037927936) = n div 281474976710656"
    using split256 [of n 281474976710656] by simp
  have c: "n div 1099511627776 mod 256 + 256 * (n div 281474976710656) = n div 1099511627776"
    using split256 [of n 1099511627776] by simp
  have d: "n div 4294967296 mod 256 + 256 * (n div 1099511627776) = n div 4294967296"
    using split256 [of n 4294967296] by simp
  have e: "n div 16777216 mod 256 + 256 * (n div 4294967296) = n div 16777216"
    using split256 [of n 16777216] by simp
  have f: "n div 65536 mod 256 + 256 * (n div 16777216) = n div 65536"
    using split256 [of n 65536] by simp
  have g: "n div 256 mod 256 + 256 * (n div 65536) = n div 256"
    using split256 [of n 256] by simp
  have h: "n mod 256 + 256 * (n div 256) = n" by simp
  show ?thesis unfolding a b c d e f g h ..
qed

lemma unat_byte: "unat (word_of_nat n :: byte) = n mod 256"
  by (simp add: unat_of_nat)

lemma mem_PUT:
  "mem (PUT s p v) a =
     (if a = p + 3 then word_of_nat (unat v div 16777216)
      else if a = p + 2 then word_of_nat (unat v div 65536)
      else if a = p + 1 then word_of_nat (unat v div 256)
      else if a = p then word_of_nat (unat v)
      else mem s a)"
  by (simp add: PUT_def)

lemma mem_store_ptr:
  "mem (store_ptr s p v) a =
     (if a = p + 7 then word_of_nat (v div 72057594037927936)
      else if a = p + 6 then word_of_nat (v div 281474976710656)
      else if a = p + 5 then word_of_nat (v div 1099511627776)
      else if a = p + 4 then word_of_nat (v div 4294967296)
      else if a = p + 3 then word_of_nat (v div 16777216)
      else if a = p + 2 then word_of_nat (v div 65536)
      else if a = p + 1 then word_of_nat (v div 256)
      else if a = p then word_of_nat v
      else mem s a)"
  by (simp add: store_ptr_def)

lemma mem_SET_COLOR:
  "mem (SET_COLOR s bp c) a = (if a = bp + 24 then word_of_int c else mem s a)"
  by (simp add: SET_COLOR_def)

lemma mem_user_store: "mem (user_store s a v) b = (if b = a then v else mem s b)"
  by (simp add: user_store_def)

lemma mem_PUT_out: "a < p \<or> p + 4 \<le> a \<Longrightarrow> mem (PUT s p v) a = mem s a"
  by (auto simp: mem_PUT)

lemma mem_store_ptr_out: "a < p \<or> p + 8 \<le> a \<Longrightarrow> mem (store_ptr s p v) a = mem s a"
  by (auto simp: mem_store_ptr)

lemma mem_SET_COLOR_out: "a \<noteq> bp + 24 \<Longrightarrow> mem (SET_COLOR s bp c) a = mem s a"
  by (simp add: mem_SET_COLOR)

lemma mem_user_store_out: "b \<noteq> a \<Longrightarrow> mem (user_store s a v) b = mem s b"
  by (simp add: mem_user_store)

lemma GET_cong:
  "(\<And>a. q \<le> a \<Longrightarrow> a < q + 4 \<Longrightarrow> mem s' a = mem s a) \<Longrightarrow> GET s' q = GET s q"
  by (simp add: GET_def)

lemma load_ptr_cong:
  "(\<And>a. q \<le> a \<Longrightarrow> a < q + 8 \<Longrightarrow> mem s' a = mem s a) \<Longrightarrow> load_ptr s' q = load_ptr s q"
  by (simp add: load_ptr_def)

lemma GET_PUT_same: "GET (PUT s p v) p = v"
proof -
  have "unat v < 4294967296" using unsigned_less [of v] by simp
  then have e: "unat v mod 256 + 256 * (unat v div 256 mod 256)
      + 65536 * (unat v div 65536 mod 256) + 16777216 * (unat v div 16777216 mod 256) = unat v"
    by (rule bytes4)
  have m: "mem (PUT s p v) p = word_of_nat (unat v)"
    "mem (PUT s p v) (p + 1) = word_of_nat (unat v div 256)"
    "mem (PUT s p v) (p + 2) = word_of_nat (unat v div 65536)"
    "mem (PUT s p v) (p + 3) = word_of_nat (unat v div 16777216)"
    by (simp_all add: mem_PUT)
  have "GET (PUT s p v) p = word_of_nat (unat v)"
    by (simp only: GET_def m unat_byte e)
  then show ?thesis by simp
qed

lemma load_ptr_store_ptr_same:
  assumes "v < 18446744073709551616"
  shows "load_ptr (store_ptr s p v) p = v"
proof -
  have m: "mem (store_ptr s p v) p = word_of_nat v"
    "mem (store_ptr s p v) (p + 1) = word_of_nat (v div 256)"
    "mem (store_ptr s p v) (p + 2) = word_of_nat (v div 65536)"
    "mem (store_ptr s p v) (p + 3) = word_of_nat (v div 16777216)"
    "mem (store_ptr s p v) (p + 4) = word_of_nat (v div 4294967296)"
    "mem (store_ptr s p v) (p + 5) = word_of_nat (v div 1099511627776)"
    "mem (store_ptr s p v) (p + 6) = word_of_nat (v div 281474976710656)"
    "mem (store_ptr s p v) (p + 7) = word_of_nat (v div 72057594037927936)"
    by (simp_all add: mem_store_ptr)
  show ?thesis
    by (simp only: load_ptr_def m unat_byte bytes8 [OF assms])
qed

lemma GET_PUT_other: "p + 4 \<le> q \<or> q + 4 \<le> p \<Longrightarrow> GET (PUT s p v) q = GET s q"
  by (rule GET_cong, rule mem_PUT_out) auto

lemma GET_store_ptr: "p + 8 \<le> q \<or> q + 4 \<le> p \<Longrightarrow> GET (store_ptr s p v) q = GET s q"
  by (rule GET_cong, rule mem_store_ptr_out) auto

lemma GET_SET_COLOR: "bp + 24 < q \<or> q + 4 \<le> bp + 24 \<Longrightarrow> GET (SET_COLOR s bp c) q = GET s q"
  by (rule GET_cong, rule mem_SET_COLOR_out) auto

lemma GET_user_store: "a < q \<or> q + 4 \<le> a \<Longrightarrow> GET (user_store s a v) q = GET s q"
  by (rule GET_cong, rule mem_user_store_out) auto

lemma load_ptr_store_ptr_other:
  "p + 8 \<le> q \<or> q + 8 \<le> p \<Longrightarrow> load_ptr (store_ptr s p v) q = load_ptr s q"
  by (rule load_ptr_cong, rule mem_store_ptr_out) auto

lemma load_ptr_PUT: "p + 4 \<le> q \<or> q + 8 \<le> p \<Longrightarrow> load_ptr (PUT s p v) q = load_ptr s q"
  by (rule load_ptr_cong, rule mem_PUT_out) auto

lemma load_ptr_SET_COLOR:
  "bp + 24 < q \<or> q + 8 \<le> bp + 24 \<Longrightarrow> load_ptr (SET_COLOR s bp c) q = load_ptr s q"
  by (rule load_ptr_cong, rule mem_SET_COLOR_out) auto

lemma load_ptr_user_store: "a < q \<or> q + 8 \<le> a \<Longrightarrow> load_ptr (user_store s a v) q = load_ptr s q"
  by (rule load_ptr_cong, rule mem_user_store_out) auto

lemma COLOR_SET_COLOR_same: "COLOR (SET_COLOR s bp c) bp = c mod 256"
  by (simp add: COLOR_def SET_COLOR_def uint_word_of_int)

lemma COLOR_SET_COLOR_other: "bp \<noteq> q \<Longrightarrow> COLOR (SET_COLOR s bp c) q = COLOR s q"
  by (simp add: COLOR_def SET_COLOR_def)

lemma COLOR_store_ptr: "q + 24 < p \<or> p + 8 \<le> q + 24 \<Longrightarrow> COLOR (store_ptr s p v) q = COLOR s q"
  by (simp add: COLOR_def mem_store_ptr_out)

lemma COLOR_PUT: "q + 24 < p \<or> p + 4 \<le> q + 24 \<Longrightarrow> COLOR (PUT s p v) q = COLOR s q"
  by (simp add: COLOR_def mem_PUT_out)

lemma COLOR_user_store: "a \<noteq> q + 24 \<Longrightarrow> COLOR (user_store s a v) q = COLOR s q"
  by (simp add: COLOR_def mem_user_store)

lemma fields_PUT:
  "mem_brk (PUT s p v) = mem_brk s" "mem_max_addr (PUT s p v) = mem_max_addr s"
  "heap_listp (PUT s p v) = heap_listp s" "NIL (PUT s p v) = NIL s" "root (PUT s p v) = root s"
  by (simp_all add: PUT_def)

lemma fields_store_ptr:
  "mem_brk (store_ptr s p v) = mem_brk s" "mem_max_addr (store_ptr s p v) = mem_max_addr s"
  "heap_listp (store_ptr s p v) = heap_listp s" "NIL (store_ptr s p v) = NIL s"
  "root (store_ptr s p v) = root s"
  by (simp_all add: store_ptr_def)

lemma fields_SET_COLOR:
  "mem_brk (SET_COLOR s p c) = mem_brk s" "mem_max_addr (SET_COLOR s p c) = mem_max_addr s"
  "heap_listp (SET_COLOR s p c) = heap_listp s" "NIL (SET_COLOR s p c) = NIL s"
  "root (SET_COLOR s p c) = root s"
  by (simp_all add: SET_COLOR_def)

lemma fields_user_store:
  "mem_brk (user_store s a v) = mem_brk s" "mem_max_addr (user_store s a v) = mem_max_addr s"
  "heap_listp (user_store s a v) = heap_listp s" "NIL (user_store s a v) = NIL s"
  "root (user_store s a v) = root s"
  by (simp_all add: user_store_def)

lemma fields_memcpy:
  "mem_brk (memcpy s d a n) = mem_brk s" "mem_max_addr (memcpy s d a n) = mem_max_addr s"
  "heap_listp (memcpy s d a n) = heap_listp s" "NIL (memcpy s d a n) = NIL s"
  "root (memcpy s d a n) = root s"
  by (simp_all add: memcpy_def)

lemma reads_upd:
  "GET (s\<lparr>root := r\<rparr>) p = GET s p" "GET (s\<lparr>mem_brk := b\<rparr>) p = GET s p"
  "GET (s\<lparr>heap_listp := h\<rparr>) p = GET s p"
  "load_ptr (s\<lparr>root := r\<rparr>) p = load_ptr s p" "load_ptr (s\<lparr>mem_brk := b\<rparr>) p = load_ptr s p"
  "load_ptr (s\<lparr>heap_listp := h\<rparr>) p = load_ptr s p"
  "COLOR (s\<lparr>root := r\<rparr>) p = COLOR s p" "COLOR (s\<lparr>mem_brk := b\<rparr>) p = COLOR s p"
  "COLOR (s\<lparr>heap_listp := h\<rparr>) p = COLOR s p"
  by (simp_all add: GET_def load_ptr_def COLOR_def)

lemmas rw = GET_PUT_same GET_PUT_other GET_store_ptr GET_SET_COLOR GET_user_store
  load_ptr_store_ptr_same load_ptr_store_ptr_other load_ptr_PUT load_ptr_SET_COLOR
  load_ptr_user_store COLOR_SET_COLOR_same COLOR_SET_COLOR_other COLOR_store_ptr COLOR_PUT
  COLOR_user_store fields_PUT fields_store_ptr fields_SET_COLOR fields_user_store reads_upd

lemmas macros = PACK_def GET_SIZE_def GET_ALLOC_def HDRP_def FTRP_def NEXT_BLKP_def PREV_BLKP_def
  PARENT_def LEFT_def RIGHT_def SET_PARENT_def SET_LEFT_def SET_RIGHT_def

section \<open>Unfolding the loops\<close>

lemma rbt_insert_loop_NIL: "x = NIL s \<Longrightarrow> rbt_insert_loop s sz y x = Some y"
  by (simp add: rbt_insert_loop.simps)

lemma rbt_insert_loop_step:
  "x \<noteq> NIL s \<Longrightarrow> rbt_insert_loop s sz y x =
     (if sz < GET_SIZE s (HDRP x) then rbt_insert_loop s sz x (LEFT s x)
      else rbt_insert_loop s sz x (RIGHT s x))"
  by (subst rbt_insert_loop.simps) (simp add: Let_def)

lemma rbt_insert_fixup_loop_stop:
  "bp = root s \<or> COLOR s (PARENT s bp) \<noteq> RED \<Longrightarrow> rbt_insert_fixup_loop s bp = Some (s, bp)"
  by (subst rbt_insert_fixup_loop.simps) auto

lemma rbt_minimum_stop: "LEFT s node = NIL s \<Longrightarrow> rbt_minimum s node = Some node"
  by (subst rbt_minimum.simps) simp

lemma rbt_minimum_step:
  "LEFT s node \<noteq> NIL s \<Longrightarrow> rbt_minimum s node = rbt_minimum s (LEFT s node)"
  by (subst rbt_minimum.simps) simp

lemma rbt_remove_fixup_loop_stop:
  "x = root s \<or> COLOR s x \<noteq> BLACK \<Longrightarrow> rbt_remove_fixup_loop s x = Some (s, x)"
  by (subst rbt_remove_fixup_loop.simps) auto

lemma rbt_find_best_fit_NIL:
  "node = NIL s \<Longrightarrow> rbt_find_best_fit s node asize best_fit = Some best_fit"
  by (subst rbt_find_best_fit.simps) simp

lemma rbt_find_best_fit_step:
  "node \<noteq> NIL s \<Longrightarrow> rbt_find_best_fit s node asize best_fit =
     (if GET_SIZE s (HDRP node) \<ge> asize then
        rbt_find_best_fit s (LEFT s node) asize
          (if best_fit = NULL \<or> GET_SIZE s (HDRP node) < GET_SIZE s (HDRP best_fit)
           then node else best_fit)
      else rbt_find_best_fit s (RIGHT s node) asize best_fit)"
  by (subst rbt_find_best_fit.simps) (simp add: Let_def)

lemma heap_walk_stop: "GET_SIZE s (HDRP bp) = 0 \<Longrightarrow> heap_walk s bp = Some []"
  by (subst heap_walk.simps) simp

lemma heap_walk_step:
  "GET_SIZE s (HDRP bp) \<noteq> 0 \<Longrightarrow> heap_walk s bp =
     do { bs \<leftarrow> heap_walk s (NEXT_BLKP s bp);
          Some ((bp, GET_SIZE s (HDRP bp), GET_ALLOC s (HDRP bp)) # bs) }"
  by (subst heap_walk.simps) simp

lemma tree_walk_NIL: "node = NIL s \<Longrightarrow> tree_walk s node = Some []"
  by (subst tree_walk.simps) simp

lemma tree_walk_step:
  "node \<noteq> NIL s \<Longrightarrow> tree_walk s node =
     do { l \<leftarrow> tree_walk s (LEFT s node);
          r \<leftarrow> tree_walk s (RIGHT s node);
          Some (l @ node # r) }"
  by (subst tree_walk.simps) simp

lemmas loops = rbt_insert_loop_NIL rbt_insert_loop_step rbt_insert_fixup_loop_stop
  rbt_minimum_stop rbt_minimum_step rbt_remove_fixup_loop_stop rbt_find_best_fit_NIL
  rbt_find_best_fit_step heap_walk_stop heap_walk_step tree_walk_NIL tree_walk_step

lemmas code = mm_init_def extend_heap_def coalesce_def insert_free_block_def rbt_insert_def
  rbt_insert_fixup_def Let_def mem_sbrk_def mm_malloc_def mm_free_def mm_realloc_def place_def
  remove_free_block_def rbt_remove_def rbt_remove_fixup_def rbt_transplant_def find_fit_def
  adjust_size_def MAX_int_def left_rotate_def right_rotate_def heap_blocks_def

lemma boot_fields:
  "mem_brk (boot m0) = 65536" "mem_max_addr (boot m0) = 21037056" "NIL (boot m0) = 32768"
  by (simp_all add: boot_def)

section \<open>Scenarios from a fresh heap\<close>

text \<open>
  Claim C9.  Starting from a fresh \<^verbatim>\<open>mm_init\<close>, \<^verbatim>\<open>p = mm_malloc(40); mm_free(p)\<close>
  leaves the heap with exactly one block between prologue and epilogue: it
  is free, its size is \<^verbatim>\<open>CHUNKSIZE\<close> = 4096, and it is the only node of the tree.
  This holds whatever bytes the memory held before \<^verbatim>\<open>mm_init\<close>.
\<close>

theorem simple_cycle_one_free_chunk:
  "do { (r, s) \<leftarrow> mm_init (boot m0);
        (p, s) \<leftarrow> mm_malloc s 40;
        s \<leftarrow> mm_free s p;
        bs \<leftarrow> heap_blocks s;
        ns \<leftarrow> tree_walk s (root s);
        Some (r, p, bs, ns) }
   = Some (0, 65552, [(65552, CHUNKSIZE, 0)], [65552])"
  by (simp add: code macros rw boot_fields loops
      cong: let_weak_cong prod.case_cong_weak bind_option_cong_code)

text \<open>
  Claim C7 says that \<^verbatim>\<open>mm_malloc(SIZE_MAX)\<close> returns \<^verbatim>\<open>NULL\<close> and leaves the heap
  unchanged.  The code computes \<^verbatim>\<open>DSIZE * ((size + DSIZE + (DSIZE-1)) / DSIZE)\<close> in
  32-bit unsigned arithmetic: for \<^verbatim>\<open>size = 0xFFFFFFFF\<close> the sum wraps to 14 and the
  adjusted size is 48.  On a fresh heap the call returns a pointer to a 48-byte
  block carved out of the free chunk.
\<close>

theorem malloc_SIZE_MAX_allocates_48:
  "do { (r, s) \<leftarrow> mm_init (boot (\<lambda>_. 0));
        bs \<leftarrow> heap_blocks s;
        (p, s') \<leftarrow> mm_malloc s 4294967295;
        bs' \<leftarrow> heap_blocks s';
        Some (adjust_size 4294967295, bs, p, bs') }
   = Some (48, [(65552, 4096, 0)], 65552, [(65552, 48, 1), (65600, 4048, 0)])"
  by (simp add: code macros rw boot_fields loops
      cong: let_weak_cong prod.case_cong_weak bind_option_cong_code)

text \<open>
  Claim C3 says that no two adjacent blocks are both free after a public
  operation.  \<^verbatim>\<open>mm_realloc\<close> shrinking a block in place splits off the tail and
  inserts it into the tree without coalescing (unlike \<^verbatim>\<open>mm_free\<close>): after
  \<^verbatim>\<open>p = mm_malloc(200); mm_realloc(p, 40)\<close> on a fresh heap the free blocks of
  160 and 3888 bytes are neighbours.
\<close>

theorem realloc_shrink_leaves_adjacent_free:
  "do { (r, s) \<leftarrow> mm_init (boot (\<lambda>_. 0));
        (p, s) \<leftarrow> mm_malloc s 200;
        (q, s) \<leftarrow> mm_realloc s p 40;
        bs \<leftarrow> heap_blocks s;
        Some (p, q, bs) }
   = Some (65552, 65552, [(65552, 48, 1), (65600, 160, 0), (65760, 3888, 0)])"
  by (simp add: code macros rw boot_fields loops
      cong: let_weak_cong prod.case_cong_weak bind_option_cong_code)

text \<open>
  Claim C5 says that a successful \<^verbatim>\<open>mm_realloc(p, n)\<close> keeps the first
  \<open>min n old_n\<close> payload bytes.  With \<^verbatim>\<open>n = 0xFFFFFFFF\<close> the adjusted size wraps to
  48 (the overflow of claim C7), the block of 112 bytes is shrunk in place and
  \<^verbatim>\<open>p\<close> is returned: the byte the user stored at \<^verbatim>\<open>p + 40\<close>, inside the first
  \<open>min n 104 = 104\<close> bytes, is overwritten by the new footer.
\<close>

theorem realloc_SIZE_MAX_clobbers_payload:
  "do { (r, s) \<leftarrow> mm_init (boot (\<lambda>_. 0));
        (p, s) \<leftarrow> mm_malloc s 100;
        let s = user_store s (p + 40) 170;
        (q, s') \<leftarrow> mm_realloc s p 4294967295;
        Some (p, GET_SIZE s (HDRP p), mem s (p + 40), q, mem s' (q + 40)) }
   = Some (65552, 112, 170, 65552, 49)"
  by (simp add: code macros rw boot_fields loops mem_PUT mem_store_ptr mem_SET_COLOR
      mem_user_store cong: let_weak_cong prod.case_cong_weak bind_option_cong_code)

text \<open>
  Claim C8, first part: the parent pointer of the \<^verbatim>\<open>NIL\<close> sentinel does not always
  point to \<^verbatim>\<open>NIL\<close> between operations.  \<^verbatim>\<open>rbt_transplant\<close> stores the parent of the
  removed node into \<^verbatim>\<open>PARENT(NIL)\<close> when the replacing child is \<^verbatim>\<open>NIL\<close>, and nothing
  resets it: after the last \<^verbatim>\<open>mm_malloc\<close> below has removed a red leaf, the
  sentinel's parent is the remaining free block.
\<close>

theorem NIL_parent_not_NIL_counterexample:
  "do { (r, s) \<leftarrow> mm_init (boot (\<lambda>_. 0));
        (a, s) \<leftarrow> mm_malloc s 100;
        (b, s) \<leftarrow> mm_malloc s 100;
        s \<leftarrow> mm_free s a;
        (c, s) \<leftarrow> mm_malloc s 100;
        Some (NIL s, PARENT s (NIL s), LEFT s (NIL s), RIGHT s (NIL s), COLOR s (NIL s)) }
   = Some (32768, 65776, 32768, 32768, BLACK)"
  by (simp add: code macros rw boot_fields loops
      cong: let_weak_cong prod.case_cong_weak bind_option_cong_code)

section \<open>Sizes\<close>

lemma sint_small_uint:
  assumes "uint (w :: u32) < 2147483648"
  shows "sint w = uint w"
proof -
  have "(- (2 ^ 31) :: int) \<le> 0" by simp
  also have "0 \<le> uint w" by simp
  finally have a: "- (2 ^ 31) \<le> uint w" .
  have b: "uint w < 2 ^ 31" using assms by simp
  have "sint w = signed_take_bit 31 (uint w)" by (simp add: sint_uint)
  also have "\<dots> = uint w" using a b by (rule signed_take_bit_int_eq_self)
  finally show ?thesis .
qed

lemma uint_less_of_unat: "unat (w :: u32) < n \<Longrightarrow> uint w < int n"
  unfolding uint_nat by (rule iffD2 [OF of_nat_less_iff])

lemma sint_small: "unat (w :: u32) < 2147483648 \<Longrightarrow> sint w = uint w"
  using uint_less_of_unat [of w 2147483648] by (simp add: sint_small_uint)

lemma sint_nonneg:
  assumes "0 \<le> sint (w :: u32)"
  shows "sint w = uint w"
proof -
  have v: "uint w < 4294967296" using uint_bounded [of w] by simp
  have t: "take_bit 32 (uint w) = uint w"
    using v by (intro take_bit_int_eq_self) simp_all
  have "sint w = take_bit 32 (uint w) - 2 ^ 32 * of_bool (bit (uint w) 31)"
    by (simp add: sint_uint signed_take_bit_eq_take_bit_minus)
  then have e: "sint w = uint w - 4294967296 * of_bool (bit (uint w) 31)"
    by (simp only: t) simp
  show ?thesis
  proof (cases "bit (uint w) 31")
    case True
    then have "sint w = uint w - 4294967296" using e by simp
    then have "sint w < 0" using v by linarith
    then show ?thesis using assms by simp
  next
    case False
    then show ?thesis using e by simp
  qed
qed

lemma dvd8_mult: "8 dvd unat (8 * (k :: u32))"
proof -
  have "unat (8 * k) = (8 * unat k) mod 4294967296"
    by (simp add: unat_word_ariths)
  moreover have "(8::nat) dvd 4294967296" by simp
  ultimately show ?thesis by (simp add: dvd_mod)
qed

lemma unat_word_of_int_uint: "unat (word_of_int (uint (w :: u32)) :: u32) = unat w"
  by simp

lemma adjust_size_nat:
  assumes "max 48 (8 * ((unat sz + 15) div 8)) < 2147483648"
  shows "unat (adjust_size sz) = max 48 (8 * ((unat sz + 15) div 8))"
proof -
  let ?n = "unat sz"
  have n: "?n + 15 < 4294967296" using assms by simp
  have a: "unat (15 + sz) = ?n + 15"
    using n by (simp add: unat_word_ariths)
  have b: "unat ((15 + sz) div 8) = (?n + 15) div 8"
    by (simp add: unat_div a)
  have c: "unat (8 * ((15 + sz) div 8)) = 8 * ((?n + 15) div 8)"
    using n by (simp add: unat_word_ariths b)
  show ?thesis
  proof (cases "sz \<le> 8")
    case True
    then have "?n \<le> 8" by (simp add: word_le_nat_alt)
    then have "8 * ((?n + 15) div 8) \<le> 16" by simp
    then show ?thesis using True by (simp add: adjust_size_def MAX_int_def)
  next
    case False
    have s: "sint (8 * ((15 + sz) div 8)) = uint (8 * ((15 + sz) div 8))"
      using assms c by (intro sint_small) simp
    have u: "uint (8 * ((15 + sz) div 8)) = int (8 * ((?n + 15) div 8))"
      unfolding uint_nat c ..
    show ?thesis
    proof (cases "48 < 8 * ((?n + 15) div 8)")
      case True
      then have "48 < uint (8 * ((15 + sz) div 8))" unfolding u by simp
      then have "adjust_size sz = 8 * ((15 + sz) div 8)"
        using False by (simp add: adjust_size_def MAX_int_def s)
      then show ?thesis using True c by simp
    next
      case le: False
      then have "\<not> 48 < uint (8 * ((15 + sz) div 8))" unfolding u by simp
      then have "adjust_size sz = 48"
        using False by (simp add: adjust_size_def MAX_int_def s)
      then show ?thesis using le by simp
    qed
  qed
qed

lemma adjust_size_range:
  "48 \<le> unat (adjust_size sz) \<and> unat (adjust_size sz) < 2147483648
     \<and> 8 dvd unat (adjust_size sz)"
proof -
  define a0 :: u32 where "a0 = (if sz \<le> 8 then 2 * 8 else 8 * ((sz + 8 + (8 - 1)) div 8))"
  have d: "8 dvd unat a0"
    unfolding a0_def using dvd8_mult [of 2] dvd8_mult [of "(sz + 8 + (8 - 1)) div 8"] by auto
  have e: "adjust_size sz = word_of_int (MAX_int (sint a0) 48)"
    by (simp add: adjust_size_def a0_def)
  show ?thesis
  proof (cases "sint a0 > 48")
    case True
    then have x: "adjust_size sz = a0" by (simp add: e MAX_int_def)
    have y: "sint a0 = uint a0" using True by (intro sint_nonneg) simp
    have "48 < uint a0" "uint a0 < 2147483648"
      using True sint_lt [of a0] y by simp_all
    then have "48 < int (unat a0)" "int (unat a0) < 2147483648"
      unfolding uint_nat by simp_all
    then have "48 \<le> unat a0" "unat a0 < 2147483648" by linarith+
    then show ?thesis using d x by simp
  next
    case False
    then have "adjust_size sz = 48" by (simp add: e MAX_int_def)
    then show ?thesis by simp
  qed
qed

lemma MAX_int_nat: "MAX_int (int a) (int b) = int (max a b)"
  by (simp add: MAX_int_def max_def)

lemma extend_heap_even_refused:
  assumes "sint (words * 4) = int e" and "mem_max_addr s < mem_brk s + e" and "words mod 2 = 0"
  shows "extend_heap s words = Some (NULL, s)"
  using assms by (simp add: extend_heap_def mem_sbrk_def)

lemma extend_heap_refused:
  assumes "8 dvd unat (asize :: u32)" and "unat asize < 2147483648"
    and "mem_max_addr s < mem_brk s + max (unat asize) 4096"
  shows "extend_heap s (word_of_int (MAX_int (sint asize) CHUNKSIZE) div WSIZE) = Some (NULL, s)"
proof -
  define e :: nat where "e = max (unat asize) 4096"
  have e8: "8 dvd e" using assms(1) by (simp add: e_def max_def)
  have el: "e < 2147483648" using assms(2) by (simp add: e_def)
  have sa: "sint asize = uint asize" using assms(2) by (rule sint_small)
  have ua: "uint asize = int (unat asize)" by (rule uint_nat)
  have "MAX_int (int (unat asize)) (int 4096) = int e"
    by (simp only: MAX_int_nat e_def)
  then have "MAX_int (sint asize) CHUNKSIZE = int e"
    unfolding sa ua by simp
  then have x: "(word_of_int (MAX_int (sint asize) CHUNKSIZE) :: u32) = word_of_nat e" by simp
  have ue: "unat (word_of_nat e :: u32) = e" using el by (simp add: unat_of_nat)
  define words :: u32 where "words = word_of_nat e div 4"
  have uw: "unat words = e div 4" by (simp add: words_def unat_div ue)
  have "unat (words mod 2) = e div 4 mod 2" by (simp add: unat_mod uw)
  also have "\<dots> = 0" using e8 by presburger
  finally have ev: "words mod 2 = 0" by (simp add: unat_eq_0)
  have "unat (words * 4) = (e div 4 * 4) mod 4294967296"
    by (simp add: unat_word_ariths uw)
  also have "e div 4 * 4 = e" using e8 by presburger
  finally have uz: "unat (words * 4) = e" using el by simp
  then have "sint (words * 4) = uint (words * 4)" using el by (intro sint_small) simp
  also have "\<dots> = int e" unfolding uint_nat uz ..
  finally have "sint (words * 4) = int e" .
  moreover have "mem_max_addr s < mem_brk s + e" using assms(3) by (simp add: e_def)
  ultimately have "extend_heap s words = Some (NULL, s)" using ev by (rule extend_heap_even_refused)
  then show ?thesis by (simp add: x words_def)
qed

section \<open>Reallocation without a move\<close>

lemma reads_upd_max:
  "GET (s\<lparr>mem_max_addr := b\<rparr>) p = GET s p" "load_ptr (s\<lparr>mem_max_addr := b\<rparr>) p = load_ptr s p"
  "COLOR (s\<lparr>mem_max_addr := b\<rparr>) p = COLOR s p"
  by (simp_all add: GET_def load_ptr_def COLOR_def)

text \<open>
  Where \<^verbatim>\<open>mm_realloc\<close> does keep the block as it is.  Let
  \<open>asize = max 48 (round_up_to_8 (n + 8))\<close>.  For a block of less than \<open>2^31\<close> bytes:
  if \<open>asize\<close> is at most the size of the block at \<open>ptr\<close> and the remainder is below
  48, then \<^verbatim>\<open>mm_realloc(ptr, n)\<close> returns \<open>ptr\<close> and the state (memory, tree root,
  heap bounds) is the one before the call.  From \<open>2^31\<close> bytes on this fails, see
  \<open>realloc_huge_block_is_split\<close> below.
\<close>

lemma realloc_fits_unchanged:
  assumes "sz \<noteq> 0" and "ptr \<noteq> NULL"
    and "unat (GET_SIZE s (HDRP ptr)) < 2147483648"
    and "max 48 (8 * ((unat sz + 8 + 7) div 8)) \<le> unat (GET_SIZE s (HDRP ptr))"
    and "unat (GET_SIZE s (HDRP ptr)) - max 48 (8 * ((unat sz + 8 + 7) div 8)) < 48"
  shows "mm_realloc s ptr sz = Some (ptr, s)"
proof -
  have e: "unat sz + 8 + 7 = unat sz + 15" by simp
  have m: "max 48 (8 * ((unat sz + 15) div 8)) < 2147483648"
    using assms(3,4) unfolding e by linarith
  have a: "unat (adjust_size sz) = max 48 (8 * ((unat sz + 15) div 8))"
    by (rule adjust_size_nat [OF m])
  have le: "adjust_size sz \<le> GET_SIZE s (HDRP ptr)"
    using assms(4) unfolding e a [symmetric] by (simp add: word_le_nat_alt)
  have "unat (GET_SIZE s (HDRP ptr) - adjust_size sz)
          = unat (GET_SIZE s (HDRP ptr)) - unat (adjust_size sz)"
    using le by (rule unat_sub)
  also have "\<dots> < 48" using assms(5) unfolding e a [symmetric] .
  finally have "\<not> 48 \<le> GET_SIZE s (HDRP ptr) - adjust_size sz"
    by (simp add: word_le_nat_alt)
  then show ?thesis using assms(1,2) le by (simp add: mm_realloc_def Let_def)
qed

lemma realloc_fits_unchanged_example:
  "\<exists>s. do { (r, s) \<leftarrow> mm_init (boot (\<lambda>_. 0)); (p, s) \<leftarrow> mm_malloc s 40; Some (p, s) }
          = Some (65552, s)
       \<and> GET_SIZE s (HDRP 65552) = 48
       \<and> mm_realloc s 65552 30 = Some (65552, s)"
proof -
  have "\<exists>s. do { (r, s) \<leftarrow> mm_init (boot (\<lambda>_. 0)); (p, s) \<leftarrow> mm_malloc s 40; Some (p, s) }
          = Some (65552, s) \<and> GET_SIZE s (HDRP 65552) = 48"
    by (simp add: code macros rw boot_fields loops
        cong: let_weak_cong prod.case_cong_weak bind_option_cong_code)
  then obtain s where
    a: "do { (r, s) \<leftarrow> mm_init (boot (\<lambda>_. 0)); (p, s) \<leftarrow> mm_malloc s 40; Some (p, s) }
          = Some (65552, s)"
    and b: "GET_SIZE s (HDRP 65552) = 48"
    by blast
  have "mm_realloc s 65552 30 = Some (65552, s)"
    using realloc_fits_unchanged [of 30 65552 s] by (simp add: b)
  then show ?thesis using a b by blast
qed

text \<open>
  The machine before \<^verbatim>\<open>mm_init\<close> with another provider limit: the region the
  provider can hand out is \<open>lim\<close> bytes long.
\<close>

definition boot_limit :: "nat \<Rightarrow> (addr \<Rightarrow> byte) \<Rightarrow> state" where
  "boot_limit lim m0 = (boot m0)\<lparr>mem_max_addr := 65536 + lim\<rparr>"

lemma boot_limit_fields:
  "mem_brk (boot_limit lim m0) = 65536" "mem_max_addr (boot_limit lim m0) = 65536 + lim"
  "NIL (boot_limit lim m0) = 32768"
  by (simp_all add: boot_limit_def boot_def)

text \<open>
  Claim C10 says that \<^verbatim>\<open>mm_realloc(p, n)\<close> returns \<open>p\<close> and changes nothing whenever
  \<open>asize = max 48 (round_up_to_8 (n + 8))\<close> is at most the size of the block and
  the remainder is below 48.  The source passes the adjusted size through
  \<^verbatim>\<open>MAX(int, int)\<close>: from \<open>2^31\<close> on it turns negative and \<^verbatim>\<open>MAX\<close> yields 48.  With
  a provider of 8 GiB the public operations below build an allocated block of
  \<open>2^31 + 32\<close> bytes at \<open>p\<close>.  For \<open>n = 2147483640\<close> the adjusted size of the claim is
  \<open>2^31\<close>, which fits with a remainder of 32; the code computes 48, splits the
  block and inserts the tail of \<open>2^31 - 16\<close> bytes into the tree.
\<close>

theorem realloc_huge_block_is_split:
  "do { (r, s) \<leftarrow> mm_init (boot_limit 8589934592 (\<lambda>_. 0));
        (p, s) \<leftarrow> mm_malloc s 4080;
        (q, s) \<leftarrow> mm_malloc s 2147479576;
        s \<leftarrow> mm_free s q;
        (p', s) \<leftarrow> mm_realloc s p 2147483632;
        bs \<leftarrow> heap_blocks s;
        (p'', s') \<leftarrow> mm_realloc s p 2147483640;
        bs' \<leftarrow> heap_blocks s';
        Some (p, p', bs, max 48 (8 * ((unat (2147483640 :: u32) + 8 + 7) div 8)),
              adjust_size 2147483640, p'', bs', GET s (HDRP p), GET s' (HDRP p)) }
   = Some (65552, 65552, [(65552, 2147483680, 1)], 2147483648,
           48, 65552, [(65552, 48, 1), (65600, 2147483632, 0)], 2147483681, 49)"
  by (simp add: code macros rw boot_limit_fields loops
      cong: let_weak_cong prod.case_cong_weak bind_option_cong_code)

text \<open>
  Claim C6.  When \<^verbatim>\<open>mm_realloc(ptr, n)\<close> with \<open>n > 0\<close> reaches the fall-back path (the
  adjusted size exceeds the block, and the next block is allocated or too
  small) and the allocation inside fails, it returns \<^verbatim>\<open>NULL\<close> and the state is
  the one before the call: the old block is still allocated, with its size and
  its payload.  \<^verbatim>\<open>mm_malloc\<close> fails exactly as the source has it: no free block
  fits and the provider refuses the \<open>max asize CHUNKSIZE\<close> bytes asked of it.
\<close>

theorem realloc_fallback_failure_keeps_heap:
  assumes "sz \<noteq> 0" and "ptr \<noteq> NULL"
    and "\<not> adjust_size sz \<le> GET_SIZE s (HDRP ptr)"
    and "\<not> (GET_ALLOC s (HDRP (NEXT_BLKP s ptr)) = 0
            \<and> GET_SIZE s (HDRP (NEXT_BLKP s ptr)) + GET_SIZE s (HDRP ptr) \<ge> adjust_size sz)"
    and "find_fit s (adjust_size sz) = Some NULL"
    and "mem_max_addr s < mem_brk s + max (unat (adjust_size sz)) CHUNKSIZE"
  shows "mm_malloc s sz = Some (NULL, s) \<and> mm_realloc s ptr sz = Some (NULL, s)"
proof -
  have "extend_heap s (word_of_int (MAX_int (sint (adjust_size sz)) CHUNKSIZE) div WSIZE)
          = Some (NULL, s)"
    using adjust_size_range [of sz] assms(6) by (intro extend_heap_refused) simp_all
  then have m: "mm_malloc s sz = Some (NULL, s)"
    using assms(1,5) by (simp add: mm_malloc_def Let_def)
  have "mm_realloc s ptr sz = Some (NULL, s)"
    using assms(1-4) m by (auto simp add: mm_realloc_def Let_def)
  then show ?thesis using m by simp
qed

theorem realloc_fallback_failure_keeps_heap_witness:
  "\<exists>s. do { (r, s) \<leftarrow> mm_init (boot (\<lambda>_. 0)); (p, s) \<leftarrow> mm_malloc s 4080;
              Some (p, s\<lparr>mem_max_addr := mem_brk s\<rparr>) }
          = Some (65552, s)
       \<and> GET s (HDRP 65552) = PACK 4096 1
       \<and> mm_malloc s 5000 = Some (NULL, s) \<and> mm_realloc s 65552 5000 = Some (NULL, s)"
proof -
  have "\<exists>s. do { (r, s) \<leftarrow> mm_init (boot (\<lambda>_. 0)); (p, s) \<leftarrow> mm_malloc s 4080;
              Some (p, s\<lparr>mem_max_addr := mem_brk s\<rparr>) }
          = Some (65552, s)
       \<and> GET s 65548 = 4097 \<and> GET s 69644 = 1 \<and> root s = NIL s
       \<and> mem_max_addr s = 69648 \<and> mem_brk s = 69648"
    by (simp add: code macros rw reads_upd_max boot_fields loops
        cong: let_weak_cong prod.case_cong_weak bind_option_cong_code)
  then obtain s where
    a: "do { (r, s) \<leftarrow> mm_init (boot (\<lambda>_. 0)); (p, s) \<leftarrow> mm_malloc s 4080;
              Some (p, s\<lparr>mem_max_addr := mem_brk s\<rparr>) }
          = Some (65552, s)"
    and b: "GET s 65548 = 4097" "GET s 69644 = 1" "root s = NIL s"
      "mem_max_addr s = 69648" "mem_brk s = 69648"
    by blast
  have c: "adjust_size 5000 = 5008" by (simp add: adjust_size_def MAX_int_def)
  have "mm_malloc s 5000 = Some (NULL, s) \<and> mm_realloc s 65552 5000 = Some (NULL, s)"
    using realloc_fallback_failure_keeps_heap [of 5000 65552 s]
    by (simp add: b c macros find_fit_def rbt_find_best_fit_NIL)
  then show ?thesis using a b by (simp add: macros)
qed

section \<open>The invariant of the heap and of the tree\<close>

text \<open>
  The shape the pointers of the free-block index are meant to have: a binary
  tree of node addresses, each with its colour.  \<open>tree_at s p par t\<close> says that
  the pointer \<open>p\<close> is the root of the tree \<open>t\<close> in the memory of \<open>s\<close> and that the
  parent pointer of that root is \<open>par\<close>; every leaf is the sentinel \<open>NIL s\<close>.
\<close>

datatype colour = R | B

datatype tree = Leaf | Node colour tree addr tree

fun colour_code :: "colour \<Rightarrow> int" where
  "colour_code R = RED"
| "colour_code B = BLACK"

fun tree_at :: "state \<Rightarrow> addr \<Rightarrow> addr \<Rightarrow> tree \<Rightarrow> bool" where
  "tree_at s p par Leaf \<longleftrightarrow> p = NIL s"
| "tree_at s p par (Node c l a r) \<longleftrightarrow>
     p = a \<and> a \<noteq> NIL s \<and> PARENT s a = par \<and> COLOR s a = colour_code c
     \<and> tree_at s (LEFT s a) a l \<and> tree_at s (RIGHT s a) a r"

fun inorder :: "tree \<Rightarrow> addr list" where
  "inorder Leaf = []"
| "inorder (Node c l a r) = inorder l @ a # inorder r"

fun colour_of :: "tree \<Rightarrow> colour" where
  "colour_of Leaf = B"
| "colour_of (Node c l a r) = c"

fun no_red_red :: "tree \<Rightarrow> bool" where
  "no_red_red Leaf \<longleftrightarrow> True"
| "no_red_red (Node c l a r) \<longleftrightarrow>
     (if c = R then colour_of l = B \<and> colour_of r = B else True) \<and> no_red_red l \<and> no_red_red r"

fun black_height :: "tree \<Rightarrow> nat" where
  "black_height Leaf = 0"
| "black_height (Node c l a r) = (if c = B then Suc (black_height l) else black_height l)"

fun balanced :: "tree \<Rightarrow> bool" where
  "balanced Leaf \<longleftrightarrow> True"
| "balanced (Node c l a r) \<longleftrightarrow> black_height l = black_height r \<and> balanced l \<and> balanced r"

definition red_black :: "tree \<Rightarrow> bool" where
  "red_black t \<longleftrightarrow> colour_of t = B \<and> no_red_red t \<and> balanced t"

text \<open>The ordering key of a node is the size in the header of its block.\<close>

definition key :: "state \<Rightarrow> addr \<Rightarrow> u32" where
  "key s bp = GET_SIZE s (HDRP bp)"

definition is_free :: "state \<Rightarrow> addr \<Rightarrow> bool" where
  "is_free s bp \<longleftrightarrow> GET_ALLOC s (HDRP bp) = 0"

text \<open>
  \<open>blocks_at s bp bs\<close>: walking from the block pointer \<open>bp\<close>, the blocks met are
  \<open>bs\<close>, then comes the epilogue header, which is the last word below the break.
  A block has at least \<^verbatim>\<open>MINBLOCKSIZE\<close> bytes and its footer repeats its header.
\<close>

definition block_ok :: "state \<Rightarrow> addr \<Rightarrow> bool" where
  "block_ok s bp \<longleftrightarrow> MINBLOCKSIZE \<le> GET_SIZE s (HDRP bp) \<and> GET s (FTRP s bp) = GET s (HDRP bp)"

fun blocks_at :: "state \<Rightarrow> addr \<Rightarrow> addr list \<Rightarrow> bool" where
  "blocks_at s bp [] \<longleftrightarrow> bp = mem_brk s \<and> GET s (HDRP bp) = PACK 0 1"
| "blocks_at s bp (b # bs) \<longleftrightarrow> bp = b \<and> block_ok s b \<and> blocks_at s (NEXT_BLKP s b) bs"

text \<open>
  The invariant between public operations, for the blocks \<open>bs\<close> and the tree \<open>t\<close>:
  \<^item> the static sentinel lies below the heap, the heap is less than \<open>2^31\<close> bytes
    long and ends below \<open>2^64\<close>;
  \<^item> the prologue is in place and the blocks \<open>bs\<close> lead from it to the epilogue;
  \<^item> the tree \<open>t\<close> hangs at \<^verbatim>\<open>root\<close>, with \<^verbatim>\<open>NIL\<close> above the root;
  \<^item> the children of \<^verbatim>\<open>NIL\<close> are \<^verbatim>\<open>NIL\<close> and its colour is \<^verbatim>\<open>BLACK\<close>;
  \<^item> the nodes of \<open>t\<close> are the free blocks among \<open>bs\<close>, each once;
  \<^item> \<open>t\<close> is a red-black tree, ordered by block size.
\<close>

definition heap_inv :: "state \<Rightarrow> addr list \<Rightarrow> tree \<Rightarrow> bool" where
  "heap_inv s bs t \<longleftrightarrow>
     8 \<le> NIL s \<and> NIL s + 40 \<le> heap_listp s \<and> heap_listp s + 8 \<le> mem_brk s
     \<and> mem_brk s \<le> mem_max_addr s \<and> mem_max_addr s < heap_listp s + 2147483648
     \<and> mem_max_addr s < 18446744073709551616
     \<and> GET s (heap_listp s - WSIZE) = PACK DSIZE 1 \<and> GET s (heap_listp s) = PACK DSIZE 1
     \<and> blocks_at s (heap_listp s + DSIZE) bs
     \<and> tree_at s (root s) (NIL s) t
     \<and> LEFT s (NIL s) = NIL s \<and> RIGHT s (NIL s) = NIL s \<and> COLOR s (NIL s) = BLACK
     \<and> mset (inorder t) = mset (filter (is_free s) bs)
     \<and> red_black t
     \<and> sorted (map (key s) (inorder t))"

lemma rbt_insert_fixup_loop_step:
  "bp \<noteq> root s \<and> COLOR s (PARENT s bp) = RED \<Longrightarrow> rbt_insert_fixup_loop s bp =
        (if PARENT s bp = LEFT s (PARENT s (PARENT s bp)) then
           (let uncle = RIGHT s (PARENT s (PARENT s bp)) in
            if COLOR s uncle = RED then
              (let s = SET_COLOR s (PARENT s bp) BLACK;
                   s = SET_COLOR s uncle BLACK;
                   s = SET_COLOR s (PARENT s (PARENT s bp)) RED;
                   bp = PARENT s (PARENT s bp)
               in rbt_insert_fixup_loop s bp)
            else
              (let (s, bp) = (if bp = RIGHT s (PARENT s bp)
                              then (let bp = PARENT s bp in (left_rotate s bp, bp))
                              else (s, bp));
                   s = SET_COLOR s (PARENT s bp) BLACK;
                   s = SET_COLOR s (PARENT s (PARENT s bp)) RED;
                   s = right_rotate s (PARENT s (PARENT s bp))
               in rbt_insert_fixup_loop s bp))
         else
           (let uncle = LEFT s (PARENT s (PARENT s bp)) in
            if COLOR s uncle = RED then
              (let s = SET_COLOR s (PARENT s bp) BLACK;
                   s = SET_COLOR s uncle BLACK;
                   s = SET_COLOR s (PARENT s (PARENT s bp)) RED;
                   bp = PARENT s (PARENT s bp)
               in rbt_insert_fixup_loop s bp)
            else
              (let (s, bp) = (if bp = LEFT s (PARENT s bp)
                              then (let bp = PARENT s bp in (right_rotate s bp, bp))
                              else (s, bp));
                   s = SET_COLOR s (PARENT s bp) BLACK;
                   s = SET_COLOR s (PARENT s (PARENT s bp)) RED;
                   s = left_rotate s (PARENT s (PARENT s bp))
               in rbt_insert_fixup_loop s bp)))"
  by (subst rbt_insert_fixup_loop.simps) simp

lemma rbt_remove_fixup_loop_step:
  "x \<noteq> root s \<and> COLOR s x = BLACK \<Longrightarrow> rbt_remove_fixup_loop s x =
        (if x = LEFT s (PARENT s x) then
           (let w = RIGHT s (PARENT s x);
                (s, w) = (if COLOR s w = RED
                          then (let s = SET_COLOR s w BLACK;
                                    s = SET_COLOR s (PARENT s x) RED;
                                    s = left_rotate s (PARENT s x);
                                    w = RIGHT s (PARENT s x)
                                in (s, w))
                          else (s, w))
            in if COLOR s (LEFT s w) = BLACK \<and> COLOR s (RIGHT s w) = BLACK then
                 (let s = SET_COLOR s w RED;
                      x = PARENT s x
                  in rbt_remove_fixup_loop s x)
               else
                 (let (s, w) = (if COLOR s (RIGHT s w) = BLACK
                                then (let s = SET_COLOR s (LEFT s w) BLACK;
                                          s = SET_COLOR s w RED;
                                          s = right_rotate s w;
                                          w = RIGHT s (PARENT s x)
                                      in (s, w))
                                else (s, w));
                      s = SET_COLOR s w (COLOR s (PARENT s x));
                      s = SET_COLOR s (PARENT s x) BLACK;
                      s = SET_COLOR s (RIGHT s w) BLACK;
                      s = left_rotate s (PARENT s x);
                      x = root s
                  in rbt_remove_fixup_loop s x))
         else
           (let w = LEFT s (PARENT s x);
                (s, w) = (if COLOR s w = RED
                          then (let s = SET_COLOR s w BLACK;
                                    s = SET_COLOR s (PARENT s x) RED;
                                    s = right_rotate s (PARENT s x);
                                    w = LEFT s (PARENT s x)
                                in (s, w))
                          else (s, w))
            in if COLOR s (RIGHT s w) = BLACK \<and> COLOR s (LEFT s w) = BLACK then
                 (let s = SET_COLOR s w RED;
                      x = PARENT s x
                  in rbt_remove_fixup_loop s x)
               else
                 (let (s, w) = (if COLOR s (LEFT s w) = BLACK
                                then (let s = SET_COLOR s (RIGHT s w) BLACK;
                                          s = SET_COLOR s w RED;
                                          s = left_rotate s w;
                                          w = LEFT s (PARENT s x)
                                      in (s, w))
                                else (s, w));
                      s = SET_COLOR s w (COLOR s (PARENT s x));
                      s = SET_COLOR s (PARENT s x) BLACK;
                      s = SET_COLOR s (LEFT s w) BLACK;
                      s = right_rotate s (PARENT s x);
                      x = root s
                  in rbt_remove_fixup_loop s x)))"
  by (subst rbt_remove_fixup_loop.simps) simp

lemmas loops2 = loops rbt_insert_fixup_loop_step rbt_remove_fixup_loop_step

lemma case_prod_Let: "(case (a, b) of (x, y) \<Rightarrow> f x y) = (let x = a; y = b in f x y)"
  by simp

lemmas run = code macros rw boot_fields loops2 case_prod_Let

section \<open>Best fit\<close>

lemma blocks_at_ge: "blocks_at s bp bs \<Longrightarrow> b \<in> set bs \<Longrightarrow> bp \<le> b"
proof (induction bs arbitrary: bp)
  case Nil
  then show ?case by simp
next
  case (Cons x xs)
  show ?case
  proof (cases "b = x")
    case True
    then show ?thesis using Cons.prems by simp
  next
    case False
    then have "NEXT_BLKP s x \<le> b" using Cons by simp
    moreover have "x \<le> NEXT_BLKP s x" by (simp add: NEXT_BLKP_def)
    ultimately show ?thesis using Cons.prems by simp
  qed
qed

lemma best_fit_search:
  assumes "tree_at s p par t"
    and "sorted (map (key s) (inorder t))"
    and "best = NULL \<or> (asize \<le> key s best \<and> (\<forall>a\<in>set (inorder t). key s a \<le> key s best))"
    and "NULL \<notin> set (inorder t)"
  shows "\<exists>r. rbt_find_best_fit s p asize best = Some r
           \<and> (if \<exists>a\<in>set (inorder t). asize \<le> key s a
               then (r \<in> set (inorder t) \<or> (r = best \<and> best \<noteq> NULL)) \<and> asize \<le> key s r
                    \<and> (\<forall>a\<in>set (inorder t). asize \<le> key s a \<longrightarrow> key s r \<le> key s a)
               else r = best)"
  using assms
proof (induction t arbitrary: p par best)
  case Leaf
  then show ?case by (simp add: rbt_find_best_fit_NIL)
next
  case (Node c l a r)
  have pa: "p = a" "a \<noteq> NIL s" and tl: "tree_at s (LEFT s a) a l" and tr: "tree_at s (RIGHT s a) a r"
    using Node.prems(1) by simp_all
  have sl: "sorted (map (key s) (inorder l))" and sr: "sorted (map (key s) (inorder r))"
    and lle: "\<forall>x\<in>set (inorder l). key s x \<le> key s a"
    and rge: "\<forall>x\<in>set (inorder r). key s a \<le> key s x"
    using Node.prems(2) by (auto simp: sorted_append)
  have a0: "a \<noteq> NULL" and l0: "NULL \<notin> set (inorder l)" and r0: "NULL \<notin> set (inorder r)"
    using Node.prems(4) by auto
  show ?case
  proof (cases "asize \<le> key s a")
    case True
    define best' where "best' = (if best = NULL \<or> key s a < key s best then a else best)"
    have step: "rbt_find_best_fit s p asize best = rbt_find_best_fit s (LEFT s a) asize best'"
      using pa True by (simp add: rbt_find_best_fit_step key_def best'_def)
    have b': "best' = NULL \<or> (asize \<le> key s best' \<and> (\<forall>x\<in>set (inorder l). key s x \<le> key s best'))"
      using True lle Node.prems(3) by (auto simp: best'_def)
    obtain rr where rr: "rbt_find_best_fit s (LEFT s a) asize best' = Some rr"
      and sp: "if \<exists>x\<in>set (inorder l). asize \<le> key s x
               then (rr \<in> set (inorder l) \<or> (rr = best' \<and> best' \<noteq> NULL)) \<and> asize \<le> key s rr
                    \<and> (\<forall>x\<in>set (inorder l). asize \<le> key s x \<longrightarrow> key s rr \<le> key s x)
               else rr = best'"
      using Node.IH(1) [OF tl sl b' l0] by blast
    have bk: "best' = a \<or> (best' = best \<and> best \<noteq> NULL \<and> key s best \<le> key s a)"
      by (auto simp: best'_def)
    have ba: "key s best' \<le> key s a" using bk by auto
    have bn: "best' \<noteq> NULL" using bk a0 by auto
    have rk: "key s rr \<le> key s a"
    proof (cases "\<exists>x\<in>set (inorder l). asize \<le> key s x")
      case True
      then have "rr \<in> set (inorder l) \<or> rr = best'" using sp by auto
      then show ?thesis using lle ba by auto
    next
      case False
      then show ?thesis using sp ba by simp
    qed
    have ras: "asize \<le> key s rr"
    proof (cases "\<exists>x\<in>set (inorder l). asize \<le> key s x")
      case True
      then show ?thesis using sp by auto
    next
      case False
      then have "rr = best'" using sp by simp
      then show ?thesis using bk True Node.prems(3) by auto
    qed
    have rin: "rr \<in> set (inorder (Node c l a r)) \<or> (rr = best \<and> best \<noteq> NULL)"
    proof (cases "\<exists>x\<in>set (inorder l). asize \<le> key s x")
      case True
      then have "rr \<in> set (inorder l) \<or> rr = best'" using sp by auto
      then show ?thesis using bk by auto
    next
      case False
      then have "rr = best'" using sp by simp
      then show ?thesis using bk by auto
    qed
    have rmin: "\<forall>x\<in>set (inorder (Node c l a r)). asize \<le> key s x \<longrightarrow> key s rr \<le> key s x"
    proof (intro ballI impI)
      fix x assume x: "x \<in> set (inorder (Node c l a r))" and ax: "asize \<le> key s x"
      consider "x \<in> set (inorder l)" | "x = a" | "x \<in> set (inorder r)" using x by auto
      then show "key s rr \<le> key s x"
      proof cases
        case 1
        then have "\<exists>x\<in>set (inorder l). asize \<le> key s x" using ax by blast
        then show ?thesis using sp 1 ax by auto
      next
        case 2
        then show ?thesis using rk by simp
      next
        case 3
        then show ?thesis using rk rge by (meson order_trans)
      qed
    qed
    have ex: "\<exists>x\<in>set (inorder (Node c l a r)). asize \<le> key s x" using True by auto
    show ?thesis
      unfolding step rr using ex rin ras rmin by (simp only: if_True) blast
  next
    case False
    have step: "rbt_find_best_fit s p asize best = rbt_find_best_fit s (RIGHT s a) asize best"
      using pa False by (simp add: rbt_find_best_fit_step key_def)
    have b': "best = NULL \<or> (asize \<le> key s best \<and> (\<forall>x\<in>set (inorder r). key s x \<le> key s best))"
      using Node.prems(3) by auto
    obtain rr where rr: "rbt_find_best_fit s (RIGHT s a) asize best = Some rr"
      and sp: "if \<exists>x\<in>set (inorder r). asize \<le> key s x
               then (rr \<in> set (inorder r) \<or> (rr = best \<and> best \<noteq> NULL)) \<and> asize \<le> key s rr
                    \<and> (\<forall>x\<in>set (inorder r). asize \<le> key s x \<longrightarrow> key s rr \<le> key s x)
               else rr = best"
      using Node.IH(2) [OF tr sr b' r0] by blast
    have nol: "\<forall>x\<in>set (inorder l). \<not> asize \<le> key s x"
      using lle False by (meson order_trans)
    have eq: "(\<exists>x\<in>set (inorder (Node c l a r)). asize \<le> key s x)
                \<longleftrightarrow> (\<exists>x\<in>set (inorder r). asize \<le> key s x)"
      using nol False by auto
    show ?thesis
      unfolding step rr
    proof (cases "\<exists>x\<in>set (inorder r). asize \<le> key s x")
      case True
      then show "\<exists>ra. Some rr = Some ra \<and> (if \<exists>a\<in>set (inorder (Node c l a r)). asize \<le> key s a
          then (ra \<in> set (inorder (Node c l a r)) \<or> ra = best \<and> best \<noteq> NULL) \<and> asize \<le> key s ra
               \<and> (\<forall>a\<in>set (inorder (Node c l a r)). asize \<le> key s a \<longrightarrow> key s ra \<le> key s a)
          else ra = best)"
        using sp nol False by auto
    next
      case False
      then show "\<exists>ra. Some rr = Some ra \<and> (if \<exists>a\<in>set (inorder (Node c l a r)). asize \<le> key s a
          then (ra \<in> set (inorder (Node c l a r)) \<or> ra = best \<and> best \<noteq> NULL) \<and> asize \<le> key s ra
               \<and> (\<forall>a\<in>set (inorder (Node c l a r)). asize \<le> key s a \<longrightarrow> key s ra \<le> key s a)
          else ra = best)"
        using sp eq by auto
    qed
  qed
qed

text \<open>
  Claim C1.  In a heap that satisfies the invariant, \<^verbatim>\<open>find_fit(asize)\<close> returns: it
  yields \<^verbatim>\<open>NULL\<close> exactly when no free block has a size of at least \<open>asize\<close>, and
  otherwise a free block of at least \<open>asize\<close> bytes whose size is the smallest
  among the free blocks of at least \<open>asize\<close> bytes.
\<close>

theorem find_fit_best_fit:
  assumes "heap_inv s bs t"
  shows "\<exists>r. find_fit s asize = Some r
           \<and> (if \<exists>b\<in>set bs. is_free s b \<and> asize \<le> GET_SIZE s (HDRP b)
               then r \<noteq> NULL \<and> r \<in> set bs \<and> is_free s r \<and> asize \<le> GET_SIZE s (HDRP r)
                    \<and> (\<forall>b\<in>set bs. is_free s b \<and> asize \<le> GET_SIZE s (HDRP b)
                           \<longrightarrow> GET_SIZE s (HDRP r) \<le> GET_SIZE s (HDRP b))
               else r = NULL)"
proof -
  have ta: "tree_at s (root s) (NIL s) t" and so: "sorted (map (key s) (inorder t))"
    and ms: "mset (inorder t) = mset (filter (is_free s) bs)"
    and bl: "blocks_at s (heap_listp s + DSIZE) bs"
    using assms by (simp_all add: heap_inv_def)
  have "set (inorder t) = set (filter (is_free s) bs)" using ms by (rule mset_eq_setD)
  then have st: "set (inorder t) = {b \<in> set bs. is_free s b}" by simp
  have nz: "NULL \<notin> set bs" using blocks_at_ge [OF bl, of NULL] by auto
  then have n0: "NULL \<notin> set (inorder t)" using st by simp
  obtain r where r: "rbt_find_best_fit s (root s) asize NULL = Some r"
    and sp: "if \<exists>a\<in>set (inorder t). asize \<le> key s a
               then (r \<in> set (inorder t) \<or> (r = NULL \<and> NULL \<noteq> NULL)) \<and> asize \<le> key s r
                    \<and> (\<forall>a\<in>set (inorder t). asize \<le> key s a \<longrightarrow> key s r \<le> key s a)
               else r = NULL"
    using best_fit_search [OF ta so _ n0, of NULL asize] by auto
  have ff: "find_fit s asize = Some r" using r by (simp add: find_fit_def)
  show ?thesis
  proof (cases "\<exists>b\<in>set bs. is_free s b \<and> asize \<le> GET_SIZE s (HDRP b)")
    case True
    then obtain b where "b \<in> set (inorder t)" "asize \<le> key s b"
      unfolding st key_def by blast
    then have "\<exists>a\<in>set (inorder t). asize \<le> key s a" by blast
    then have r1: "r \<in> set (inorder t)" and r2: "asize \<le> key s r"
      and r3: "\<forall>a\<in>set (inorder t). asize \<le> key s a \<longrightarrow> key s r \<le> key s a"
      using sp by auto
    have r4: "r \<in> set bs" "is_free s r" using r1 unfolding st by simp_all
    have r5: "r \<noteq> NULL" using r4(1) nz by (cases "r = 0") simp_all
    have r6: "\<forall>b\<in>set bs. is_free s b \<and> asize \<le> GET_SIZE s (HDRP b)
                \<longrightarrow> GET_SIZE s (HDRP r) \<le> GET_SIZE s (HDRP b)"
      using r3 unfolding st key_def by blast
    have r7: "asize \<le> GET_SIZE s (HDRP r)" using r2 by (simp add: key_def)
    show ?thesis
      unfolding if_P [OF True] using ff r4 r5 r6 r7 by (intro exI [of _ r] conjI)
  next
    case False
    then have "\<not> (\<exists>a\<in>set (inorder t). asize \<le> key s a)"
      unfolding st key_def by blast
    then have "r = NULL" using sp by simp
    then show ?thesis
      unfolding if_not_P [OF False] using ff by (intro exI [of _ r] conjI)
  qed
qed

theorem find_fit_best_fit_witness:
  "\<exists>s r. do { (r, s) \<leftarrow> mm_init (boot (\<lambda>_. 0));
                (a, s) \<leftarrow> mm_malloc s 100;
                (b, s) \<leftarrow> mm_malloc s 100;
                (c, s) \<leftarrow> mm_malloc s 200;
                (d, s) \<leftarrow> mm_malloc s 100;
                s \<leftarrow> mm_free s a;
                s \<leftarrow> mm_free s c;
                Some s } = Some s
     \<and> heap_inv s [65552, 65664, 65776, 65984, 66096]
          (Node B (Node R Leaf 65552 Leaf) 65776 (Node R Leaf 66096 Leaf))
     \<and> find_fit s 150 = Some r \<and> r = 65776 \<and> is_free s r \<and> GET_SIZE s (HDRP r) = 208"
proof -
  have "\<exists>s. do { (r, s) \<leftarrow> mm_init (boot (\<lambda>_. 0));
                (a, s) \<leftarrow> mm_malloc s 100;
                (b, s) \<leftarrow> mm_malloc s 100;
                (c, s) \<leftarrow> mm_malloc s 200;
                (d, s) \<leftarrow> mm_malloc s 100;
                s \<leftarrow> mm_free s a;
                s \<leftarrow> mm_free s c;
                Some s } = Some s
     \<and> heap_inv s [65552, 65664, 65776, 65984, 66096]
          (Node B (Node R Leaf 65552 Leaf) 65776 (Node R Leaf 66096 Leaf))
     \<and> find_fit s 150 = Some 65776 \<and> GET s 65772 = 208"
    by (simp add: run heap_inv_def block_ok_def is_free_def red_black_def key_def
        del: prod.case case_prod_conv
        cong: let_weak_cong prod.case_cong_weak bind_option_cong_code)
  then obtain s where
    a: "do { (r, s) \<leftarrow> mm_init (boot (\<lambda>_. 0));
                (a, s) \<leftarrow> mm_malloc s 100;
                (b, s) \<leftarrow> mm_malloc s 100;
                (c, s) \<leftarrow> mm_malloc s 200;
                (d, s) \<leftarrow> mm_malloc s 100;
                s \<leftarrow> mm_free s a;
                s \<leftarrow> mm_free s c;
                Some s } = Some s"
    and h: "heap_inv s [65552, 65664, 65776, 65984, 66096]
          (Node B (Node R Leaf 65552 Leaf) 65776 (Node R Leaf 66096 Leaf))"
    and f: "find_fit s 150 = Some 65776"
    and g: "GET s 65772 = 208"
    by blast
  have ex: "\<exists>b\<in>set [65552, 65664, 65776, 65984, 66096]. is_free s b \<and> 150 \<le> GET_SIZE s (HDRP b)"
    using g by (simp add: is_free_def macros)
  obtain r where r: "find_fit s 150 = Some r"
    and c: "if \<exists>b\<in>set [65552, 65664, 65776, 65984, 66096]. is_free s b \<and> 150 \<le> GET_SIZE s (HDRP b)
            then r \<noteq> NULL \<and> r \<in> set [65552, 65664, 65776, 65984, 66096] \<and> is_free s r
                 \<and> 150 \<le> GET_SIZE s (HDRP r)
                 \<and> (\<forall>b\<in>set [65552, 65664, 65776, 65984, 66096].
                        is_free s b \<and> 150 \<le> GET_SIZE s (HDRP b)
                        \<longrightarrow> GET_SIZE s (HDRP r) \<le> GET_SIZE s (HDRP b))
            else r = NULL"
    using find_fit_best_fit [OF h, of 150] by blast
  have fr: "is_free s r" using c unfolding if_P [OF ex] by (rule conjunct1 [OF conjunct2 [OF conjunct2]])
  have "r = 65776" using r f by simp
  moreover have "GET_SIZE s (HDRP 65776) = 208" using g by (simp add: macros)
  ultimately show ?thesis using a h f fr by blast
qed

section \<open>Node footprints\<close>

text \<open>
  A tree node occupies the 32 bytes from its address on; the header of its
  block is the word just below.  Two nodes are \<open>apart\<close> when their blocks, of
  at least \<^verbatim>\<open>MINBLOCKSIZE\<close> bytes each, cannot overlap.  \<open>nodes_ok N\<close> says this of
  every two addresses of \<open>N\<close>, and that each fits a 64-bit pointer.
\<close>

definition apart :: "addr \<Rightarrow> addr \<Rightarrow> bool" where
  "apart a b \<longleftrightarrow> a + 48 \<le> b \<or> b + 48 \<le> a"

definition nodes_ok :: "addr set \<Rightarrow> bool" where
  "nodes_ok N \<longleftrightarrow>
     (\<forall>a\<in>N. \<forall>b\<in>N. a = b \<or> apart a b) \<and> (\<forall>a\<in>N. 8 \<le> a \<and> a < 18446744073709551616)"

text \<open>
  \<open>frame N s s'\<close>: the state \<open>s'\<close> differs from \<open>s\<close> at most in the node bytes of
  the addresses in \<open>N\<close> and in the tree root.
\<close>

definition frame :: "addr set \<Rightarrow> state \<Rightarrow> state \<Rightarrow> bool" where
  "frame N s s' \<longleftrightarrow>
     (\<forall>x. (\<forall>n\<in>N. x < n \<or> n + 32 \<le> x) \<longrightarrow> mem s' x = mem s x)
     \<and> mem_brk s' = mem_brk s \<and> mem_max_addr s' = mem_max_addr s
     \<and> heap_listp s' = heap_listp s \<and> NIL s' = NIL s"

text \<open>
  A position inside a tree: the path from a subtree up to the root.  Each
  step records on which side the subtree hangs, the colour and the address of
  the parent, and the sibling subtree.  \<open>fill cs t\<close> puts \<open>t\<close> back into the path.
\<close>

datatype side = Lt | Rt

type_synonym step = "side \<times> colour \<times> addr \<times> tree"

fun fill :: "step list \<Rightarrow> tree \<Rightarrow> tree" where
  "fill [] t = t"
| "fill ((Lt, c, a, sib) # cs) t = fill cs (Node c t a sib)"
| "fill ((Rt, c, a, sib) # cs) t = fill cs (Node c sib a t)"

text \<open>
  \<open>path_at s cs p par\<close>: in the memory of \<open>s\<close> the path \<open>cs\<close> leads from the slot
  that holds the pointer \<open>p\<close> up to \<^verbatim>\<open>root\<close>, and \<open>par\<close> is the node that owns the
  slot (\<^verbatim>\<open>NIL\<close> when the slot is \<^verbatim>\<open>root\<close> itself).
\<close>

fun path_at :: "state \<Rightarrow> step list \<Rightarrow> addr \<Rightarrow> addr \<Rightarrow> bool" where
  "path_at s [] p par \<longleftrightarrow> root s = p \<and> par = NIL s"
| "path_at s ((d, c, a, sib) # cs) p par \<longleftrightarrow>
     par = a \<and> a \<noteq> NIL s \<and> COLOR s a = colour_code c
     \<and> (case d of Lt \<Rightarrow> LEFT s a = p \<and> tree_at s (RIGHT s a) a sib
                  | Rt \<Rightarrow> RIGHT s a = p \<and> tree_at s (LEFT s a) a sib)
     \<and> path_at s cs a (PARENT s a)"

fun path_nodes :: "step list \<Rightarrow> addr set" where
  "path_nodes [] = {}"
| "path_nodes ((d, c, a, sib) # cs) = insert a (set (inorder sib) \<union> path_nodes cs)"

text \<open>The nodes before and after the hole of a path, in order.\<close>

fun before :: "step list \<Rightarrow> addr list" where
  "before [] = []"
| "before ((Lt, c, a, sib) # cs) = before cs"
| "before ((Rt, c, a, sib) # cs) = before cs @ inorder sib @ [a]"

fun after :: "step list \<Rightarrow> addr list" where
  "after [] = []"
| "after ((Lt, c, a, sib) # cs) = a # inorder sib @ after cs"
| "after ((Rt, c, a, sib) # cs) = after cs"

text \<open>
  \<open>path_ok cs h\<close>: the path is that of a red-black tree around a hole for a
  subtree of black height \<open>h\<close>: siblings are red-black subtrees of the matching
  height, a red node on the path has a black sibling below it and a black
  node above it, and is not the root.
\<close>

fun path_ok :: "step list \<Rightarrow> nat \<Rightarrow> bool" where
  "path_ok [] h \<longleftrightarrow> True"
| "path_ok ((d, c, a, sib) # cs) h \<longleftrightarrow>
     no_red_red sib \<and> balanced sib \<and> black_height sib = h
     \<and> (if c = R then colour_of sib = B \<and> (case cs of [] \<Rightarrow> False | (d', c', x) # cs' \<Rightarrow> c' = B)
         else True)
     \<and> path_ok cs (if c = B then Suc h else h)"

fun top_colour :: "step list \<Rightarrow> colour" where
  "top_colour [] = B"
| "top_colour ((d, c, a, sib) # cs) = c"

section \<open>Node fields under separation\<close>

lemma nodes_okD: "nodes_ok N \<Longrightarrow> a \<in> N \<Longrightarrow> b \<in> N \<Longrightarrow> a = b \<or> apart a b"
  by (simp add: nodes_ok_def)

lemma nodes_ok_bound: "nodes_ok N \<Longrightarrow> a \<in> N \<Longrightarrow> 8 \<le> a \<and> a < 18446744073709551616"
  by (simp add: nodes_ok_def)

lemma nodes_ok_subset: "nodes_ok N \<Longrightarrow> M \<subseteq> N \<Longrightarrow> nodes_ok M"
  by (auto simp: nodes_ok_def)

lemma colour_code_simps [simp]:
  "colour_code c = 1 \<longleftrightarrow> c = R" "colour_code c = 0 \<longleftrightarrow> c = B"
  "colour_code c mod 256 = colour_code c"
  "(colour_code c = colour_code c') \<longleftrightarrow> c = c'"
  by (cases c; cases c'; simp)+

lemma fld_SET_PARENT:
  assumes "nodes_ok N" and "a \<in> N" and "b \<in> N"
  shows "v \<in> N \<Longrightarrow> PARENT (SET_PARENT s a v) b = (if b = a then v else PARENT s b)"
    and "LEFT (SET_PARENT s a v) b = LEFT s b"
    and "RIGHT (SET_PARENT s a v) b = RIGHT s b"
    and "COLOR (SET_PARENT s a v) b = COLOR s b"
    and "GET (SET_PARENT s a v) (HDRP b) = GET s (HDRP b)"
  using nodes_okD [OF assms] nodes_ok_bound [OF assms(1,2)] nodes_ok_bound [OF assms(1,3)]
    nodes_ok_bound [OF assms(1), of v]
  by (auto simp: apart_def PARENT_def LEFT_def RIGHT_def SET_PARENT_def HDRP_def
      load_ptr_store_ptr_same load_ptr_store_ptr_other COLOR_store_ptr GET_store_ptr)

lemma fld_SET_LEFT:
  assumes "nodes_ok N" and "a \<in> N" and "b \<in> N"
  shows "PARENT (SET_LEFT s a v) b = PARENT s b"
    and "v \<in> N \<Longrightarrow> LEFT (SET_LEFT s a v) b = (if b = a then v else LEFT s b)"
    and "RIGHT (SET_LEFT s a v) b = RIGHT s b"
    and "COLOR (SET_LEFT s a v) b = COLOR s b"
    and "GET (SET_LEFT s a v) (HDRP b) = GET s (HDRP b)"
  using nodes_okD [OF assms] nodes_ok_bound [OF assms(1,2)] nodes_ok_bound [OF assms(1,3)]
    nodes_ok_bound [OF assms(1), of v]
  by (auto simp: apart_def PARENT_def LEFT_def RIGHT_def SET_LEFT_def HDRP_def
      load_ptr_store_ptr_same load_ptr_store_ptr_other COLOR_store_ptr GET_store_ptr)

lemma fld_SET_RIGHT:
  assumes "nodes_ok N" and "a \<in> N" and "b \<in> N"
  shows "PARENT (SET_RIGHT s a v) b = PARENT s b"
    and "LEFT (SET_RIGHT s a v) b = LEFT s b"
    and "v \<in> N \<Longrightarrow> RIGHT (SET_RIGHT s a v) b = (if b = a then v else RIGHT s b)"
    and "COLOR (SET_RIGHT s a v) b = COLOR s b"
    and "GET (SET_RIGHT s a v) (HDRP b) = GET s (HDRP b)"
  using nodes_okD [OF assms] nodes_ok_bound [OF assms(1,2)] nodes_ok_bound [OF assms(1,3)]
    nodes_ok_bound [OF assms(1), of v]
  by (auto simp: apart_def PARENT_def LEFT_def RIGHT_def SET_RIGHT_def HDRP_def
      load_ptr_store_ptr_same load_ptr_store_ptr_other COLOR_store_ptr GET_store_ptr)

lemma fld_SET_COLOR:
  assumes "nodes_ok N" and "a \<in> N" and "b \<in> N"
  shows "PARENT (SET_COLOR s a c) b = PARENT s b"
    and "LEFT (SET_COLOR s a c) b = LEFT s b"
    and "RIGHT (SET_COLOR s a c) b = RIGHT s b"
    and "COLOR (SET_COLOR s a c) b = (if b = a then c mod 256 else COLOR s b)"
    and "GET (SET_COLOR s a c) (HDRP b) = GET s (HDRP b)"
  using nodes_okD [OF assms] nodes_ok_bound [OF assms(1,2)] nodes_ok_bound [OF assms(1,3)]
  by (auto simp: apart_def PARENT_def LEFT_def RIGHT_def HDRP_def
      load_ptr_SET_COLOR COLOR_SET_COLOR_same COLOR_SET_COLOR_other GET_SET_COLOR)

lemma fld_root_upd [simp]:
  "PARENT (s\<lparr>root := r\<rparr>) b = PARENT s b" "LEFT (s\<lparr>root := r\<rparr>) b = LEFT s b"
  "RIGHT (s\<lparr>root := r\<rparr>) b = RIGHT s b" "COLOR (s\<lparr>root := r\<rparr>) b = COLOR s b"
  "GET (s\<lparr>root := r\<rparr>) p = GET s p"
  by (simp_all add: PARENT_def LEFT_def RIGHT_def reads_upd)

lemma fld_globals [simp]:
  "NIL (SET_PARENT s a v) = NIL s" "root (SET_PARENT s a v) = root s"
  "NIL (SET_LEFT s a v) = NIL s" "root (SET_LEFT s a v) = root s"
  "NIL (SET_RIGHT s a v) = NIL s" "root (SET_RIGHT s a v) = root s"
  "NIL (SET_COLOR s a c) = NIL s" "root (SET_COLOR s a c) = root s"
  by (simp_all add: SET_PARENT_def SET_LEFT_def SET_RIGHT_def fields_store_ptr fields_SET_COLOR)

lemmas fld = fld_SET_PARENT fld_SET_LEFT fld_SET_RIGHT fld_SET_COLOR

lemma key_fld:
  assumes "nodes_ok N" and "a \<in> N" and "b \<in> N"
  shows "key (SET_PARENT s a v) b = key s b" "key (SET_LEFT s a v) b = key s b"
    "key (SET_RIGHT s a v) b = key s b" "key (SET_COLOR s a c) b = key s b"
    "key (s\<lparr>root := r\<rparr>) b = key s b"
  by (simp_all add: key_def GET_SIZE_def fld [OF assms])

subsection \<open>Frames\<close>

lemma frame_refl [simp]: "frame N s s"
  by (simp add: frame_def)

lemma frame_trans: "frame N s s' \<Longrightarrow> frame N s' s'' \<Longrightarrow> frame N s s''"
  by (simp add: frame_def)

lemma frame_mono: "frame M s s' \<Longrightarrow> M \<subseteq> N \<Longrightarrow> frame N s s'"
  by (auto simp: frame_def)

lemma frame_write:
  assumes "frame N s s'" and "a \<in> N"
    and "\<And>x. x < a \<or> a + 32 \<le> x \<Longrightarrow> mem s'' x = mem s' x"
    and "mem_brk s'' = mem_brk s'" and "mem_max_addr s'' = mem_max_addr s'"
    and "heap_listp s'' = heap_listp s'" and "NIL s'' = NIL s'"
  shows "frame N s s''"
  unfolding frame_def
proof (intro conjI allI impI)
  fix x assume x: "\<forall>n\<in>N. x < n \<or> n + 32 \<le> x"
  then have "x < a \<or> a + 32 \<le> x" using assms(2) by blast
  then have "mem s'' x = mem s' x" by (rule assms(3))
  also have "\<dots> = mem s x" using assms(1) x by (simp add: frame_def)
  finally show "mem s'' x = mem s x" .
qed (use assms in \<open>simp_all add: frame_def\<close>)

lemma frame_step:
  assumes "frame N s s'" and "a \<in> N"
  shows "frame N s (SET_PARENT s' a v)" "frame N s (SET_LEFT s' a v)"
    "frame N s (SET_RIGHT s' a v)" "frame N s (SET_COLOR s' a c)"
  by (rule frame_write [OF assms];
      auto simp: SET_PARENT_def SET_LEFT_def SET_RIGHT_def fields_store_ptr
        fields_SET_COLOR mem_store_ptr_out mem_SET_COLOR_out)+

lemma frame_root: "frame N s s' \<Longrightarrow> frame N s (s'\<lparr>root := r\<rparr>)"
  by (simp add: frame_def)


lemma fld_other:
  assumes "nodes_ok N" and "a \<in> N" and "b \<in> N" and "b \<noteq> a"
  shows "PARENT (SET_PARENT s a v) b = PARENT s b" "LEFT (SET_PARENT s a v) b = LEFT s b"
    "RIGHT (SET_PARENT s a v) b = RIGHT s b" "COLOR (SET_PARENT s a v) b = COLOR s b"
    "PARENT (SET_LEFT s a v) b = PARENT s b" "LEFT (SET_LEFT s a v) b = LEFT s b"
    "RIGHT (SET_LEFT s a v) b = RIGHT s b" "COLOR (SET_LEFT s a v) b = COLOR s b"
    "PARENT (SET_RIGHT s a v) b = PARENT s b" "LEFT (SET_RIGHT s a v) b = LEFT s b"
    "RIGHT (SET_RIGHT s a v) b = RIGHT s b" "COLOR (SET_RIGHT s a v) b = COLOR s b"
    "PARENT (SET_COLOR s a c) b = PARENT s b" "LEFT (SET_COLOR s a c) b = LEFT s b"
    "RIGHT (SET_COLOR s a c) b = RIGHT s b" "COLOR (SET_COLOR s a c) b = COLOR s b"
  using nodes_okD [OF assms(1-3)] nodes_ok_bound [OF assms(1,2)] nodes_ok_bound [OF assms(1,3)]
    assms(4)
  by (auto simp: apart_def PARENT_def LEFT_def RIGHT_def SET_PARENT_def SET_LEFT_def SET_RIGHT_def
      load_ptr_store_ptr_other COLOR_store_ptr load_ptr_SET_COLOR COLOR_SET_COLOR_other)

section \<open>Trees and paths in memory\<close>

lemma tree_at_cong:
  assumes "\<forall>n\<in>set (inorder t). PARENT s' n = PARENT s n \<and> LEFT s' n = LEFT s n
              \<and> RIGHT s' n = RIGHT s n \<and> COLOR s' n = COLOR s n"
    and "NIL s' = NIL s"
  shows "tree_at s' p par t = tree_at s p par t"
  using assms by (induction t arbitrary: p par) auto

lemma path_at_cong:
  assumes "\<forall>n\<in>path_nodes cs. PARENT s' n = PARENT s n \<and> LEFT s' n = LEFT s n
              \<and> RIGHT s' n = RIGHT s n \<and> COLOR s' n = COLOR s n"
    and "NIL s' = NIL s" and "root s' = root s"
  shows "path_at s' cs p par = path_at s cs p par"
  using assms
proof (induction cs arbitrary: p par)
  case Nil
  then show ?case by simp
next
  case (Cons st cs)
  obtain d c a sib where st: "st = (d, c, a, sib)" by (cases st)
  have sib: "\<And>q. tree_at s' q a sib = tree_at s q a sib"
    using Cons.prems by (intro tree_at_cong) (auto simp: st)
  have rest: "\<And>q r. path_at s' cs q r = path_at s cs q r"
    using Cons.prems by (intro Cons.IH) (auto simp: st)
  have a: "PARENT s' a = PARENT s a" "LEFT s' a = LEFT s a" "RIGHT s' a = RIGHT s a"
    "COLOR s' a = COLOR s a"
    using Cons.prems(1) by (simp_all add: st)
  show ?case
    by (cases d) (simp_all add: st sib rest a Cons.prems(2))
qed

lemma colour_neq [simp]: "c \<noteq> R \<longleftrightarrow> c = B" "c \<noteq> B \<longleftrightarrow> c = R"
  by (cases c; simp)+

lemma fld_other_set:
  assumes "nodes_ok N" and "a \<in> N" and "A \<subseteq> N" and "a \<notin> A"
  shows "\<forall>n\<in>A. PARENT (SET_PARENT s a v) n = PARENT s n \<and> LEFT (SET_PARENT s a v) n = LEFT s n
              \<and> RIGHT (SET_PARENT s a v) n = RIGHT s n \<and> COLOR (SET_PARENT s a v) n = COLOR s n"
    and "\<forall>n\<in>A. PARENT (SET_LEFT s a v) n = PARENT s n \<and> LEFT (SET_LEFT s a v) n = LEFT s n
              \<and> RIGHT (SET_LEFT s a v) n = RIGHT s n \<and> COLOR (SET_LEFT s a v) n = COLOR s n"
    and "\<forall>n\<in>A. PARENT (SET_RIGHT s a v) n = PARENT s n \<and> LEFT (SET_RIGHT s a v) n = LEFT s n
              \<and> RIGHT (SET_RIGHT s a v) n = RIGHT s n \<and> COLOR (SET_RIGHT s a v) n = COLOR s n"
    and "\<forall>n\<in>A. PARENT (SET_COLOR s a c) n = PARENT s n \<and> LEFT (SET_COLOR s a c) n = LEFT s n
              \<and> RIGHT (SET_COLOR s a c) n = RIGHT s n \<and> COLOR (SET_COLOR s a c) n = COLOR s n"
proof -
  have *: "\<And>n. n \<in> A \<Longrightarrow> n \<in> N \<and> n \<noteq> a" using assms(3,4) by blast
  show "\<forall>n\<in>A. PARENT (SET_PARENT s a v) n = PARENT s n \<and> LEFT (SET_PARENT s a v) n = LEFT s n
              \<and> RIGHT (SET_PARENT s a v) n = RIGHT s n \<and> COLOR (SET_PARENT s a v) n = COLOR s n"
    using * by (simp add: fld_other [OF assms(1,2)])
  show "\<forall>n\<in>A. PARENT (SET_LEFT s a v) n = PARENT s n \<and> LEFT (SET_LEFT s a v) n = LEFT s n
              \<and> RIGHT (SET_LEFT s a v) n = RIGHT s n \<and> COLOR (SET_LEFT s a v) n = COLOR s n"
    using * by (simp add: fld_other [OF assms(1,2)])
  show "\<forall>n\<in>A. PARENT (SET_RIGHT s a v) n = PARENT s n \<and> LEFT (SET_RIGHT s a v) n = LEFT s n
              \<and> RIGHT (SET_RIGHT s a v) n = RIGHT s n \<and> COLOR (SET_RIGHT s a v) n = COLOR s n"
    using * by (simp add: fld_other [OF assms(1,2)])
  show "\<forall>n\<in>A. PARENT (SET_COLOR s a c) n = PARENT s n \<and> LEFT (SET_COLOR s a c) n = LEFT s n
              \<and> RIGHT (SET_COLOR s a c) n = RIGHT s n \<and> COLOR (SET_COLOR s a c) n = COLOR s n"
    using * by (simp add: fld_other [OF assms(1,2)])
qed

lemma tree_at_write:
  assumes "nodes_ok N" and "a \<in> N" and "set (inorder t) \<subseteq> N" and "a \<notin> set (inorder t)"
  shows "tree_at (SET_PARENT s a v) p par t = tree_at s p par t"
    "tree_at (SET_LEFT s a v) p par t = tree_at s p par t"
    "tree_at (SET_RIGHT s a v) p par t = tree_at s p par t"
    "tree_at (SET_COLOR s a c) p par t = tree_at s p par t"
  by (rule tree_at_cong [OF fld_other_set(1) [OF assms]] tree_at_cong [OF fld_other_set(2) [OF assms]]
      tree_at_cong [OF fld_other_set(3) [OF assms]] tree_at_cong [OF fld_other_set(4) [OF assms]],
      simp)+

lemma tree_at_root_upd [simp]: "tree_at (s\<lparr>root := r\<rparr>) p par t = tree_at s p par t"
  by (intro tree_at_cong) simp_all

lemma path_at_write:
  assumes "nodes_ok N" and "a \<in> N" and "path_nodes cs \<subseteq> N" and "a \<notin> path_nodes cs"
  shows "path_at (SET_PARENT s a v) cs p par = path_at s cs p par"
    "path_at (SET_LEFT s a v) cs p par = path_at s cs p par"
    "path_at (SET_RIGHT s a v) cs p par = path_at s cs p par"
    "path_at (SET_COLOR s a c) cs p par = path_at s cs p par"
  by (rule path_at_cong [OF fld_other_set(1) [OF assms]] path_at_cong [OF fld_other_set(2) [OF assms]]
      path_at_cong [OF fld_other_set(3) [OF assms]] path_at_cong [OF fld_other_set(4) [OF assms]],
      simp, simp)+

lemma inorder_fill: "inorder (fill cs t) = before cs @ inorder t @ after cs"
proof (induction cs arbitrary: t)
  case Nil
  then show ?case by simp
next
  case (Cons st cs)
  obtain d c a sib where st: "st = (d, c, a, sib)" by (cases st)
  show ?case by (cases d) (simp_all add: st Cons.IH)
qed

lemma set_before_after: "set (before cs) \<union> set (after cs) = path_nodes cs"
proof (induction cs)
  case Nil
  then show ?case by simp
next
  case (Cons st cs)
  obtain d c a sib where st: "st = (d, c, a, sib)" by (cases st)
  show ?case using Cons.IH by (cases d) (auto simp: st)
qed

lemma set_inorder_fill: "set (inorder (fill cs t)) = path_nodes cs \<union> set (inorder t)"
  using set_before_after [of cs] by (auto simp: inorder_fill)

lemma tree_at_fill:
  "path_at s cs p par \<Longrightarrow> tree_at s p par t \<Longrightarrow> tree_at s (root s) (NIL s) (fill cs t)"
proof (induction cs arbitrary: p par t)
  case Nil
  then show ?case by simp
next
  case (Cons st cs)
  obtain d c a sib where st: "st = (d, c, a, sib)" by (cases st)
  show ?case
  proof (cases d)
    case Lt
    have "tree_at s a (PARENT s a) (Node c t a sib)"
      using Cons.prems by (simp add: st Lt)
    moreover have "path_at s cs a (PARENT s a)" using Cons.prems by (simp add: st)
    ultimately have "tree_at s (root s) (NIL s) (fill cs (Node c t a sib))" by (rule Cons.IH [rotated])
    then show ?thesis by (simp add: st Lt)
  next
    case Rt
    have "tree_at s a (PARENT s a) (Node c sib a t)"
      using Cons.prems by (simp add: st Rt)
    moreover have "path_at s cs a (PARENT s a)" using Cons.prems by (simp add: st)
    ultimately have "tree_at s (root s) (NIL s) (fill cs (Node c sib a t))" by (rule Cons.IH [rotated])
    then show ?thesis by (simp add: st Rt)
  qed
qed

lemma tree_at_fillD:
  "tree_at s (root s) (NIL s) (fill cs t) \<Longrightarrow> \<exists>p par. path_at s cs p par \<and> tree_at s p par t"
proof (induction cs arbitrary: t)
  case Nil
  then show ?case by auto
next
  case (Cons st cs)
  obtain d c a sib where st: "st = (d, c, a, sib)" by (cases st)
  show ?case
  proof (cases d)
    case Lt
    then have "tree_at s (root s) (NIL s) (fill cs (Node c t a sib))" using Cons.prems by (simp add: st)
    then obtain p par where "path_at s cs p par" "tree_at s p par (Node c t a sib)"
      using Cons.IH by blast
    then show ?thesis by (auto simp: st Lt)
  next
    case Rt
    then have "tree_at s (root s) (NIL s) (fill cs (Node c sib a t))" using Cons.prems by (simp add: st)
    then obtain p par where "path_at s cs p par" "tree_at s p par (Node c sib a t)"
      using Cons.IH by blast
    then show ?thesis by (auto simp: st Rt)
  qed
qed

lemma red_black_fill:
  "red_black (fill cs t) \<longleftrightarrow>
     path_ok cs (black_height t) \<and> no_red_red t \<and> balanced t
     \<and> (top_colour cs = R \<longrightarrow> colour_of t = B) \<and> (cs = [] \<longrightarrow> colour_of t = B)"
proof (induction cs arbitrary: t)
  case Nil
  then show ?case by (auto simp: red_black_def)
next
  case (Cons st cs)
  obtain d c a sib where st: "st = (d, c, a, sib)" by (cases st)
  have tc: "top_colour cs = R \<or> top_colour cs = B" by (cases "top_colour cs") auto
  have tn: "cs = [] \<Longrightarrow> top_colour cs = B" by simp
  show ?case
  proof (cases d)
    case Lt
    show ?thesis
      unfolding st Lt fill.simps Cons.IH
      by (cases c; cases cs; cases "colour_of t"; cases "colour_of sib"; auto)
  next
    case Rt
    show ?thesis
      unfolding st Rt fill.simps Cons.IH
      by (cases c; cases cs; cases "colour_of t"; cases "colour_of sib"; auto)
  qed
qed

fun path_distinct :: "step list \<Rightarrow> bool" where
  "path_distinct [] \<longleftrightarrow> True"
| "path_distinct ((d, c, a, sib) # cs) \<longleftrightarrow>
     a \<notin> set (inorder sib) \<and> distinct (inorder sib) \<and> a \<notin> path_nodes cs
     \<and> set (inorder sib) \<inter> path_nodes cs = {} \<and> path_distinct cs"

text \<open>
  \<open>focus N s cs t\<close>: the path \<open>cs\<close> and the subtree \<open>t\<close> in its hole are made of
  nodes of \<open>N\<close>, no node occurs twice, and \<open>N\<close>, which holds the sentinel too, is
  a set of separate nodes.
\<close>

definition focus :: "addr set \<Rightarrow> state \<Rightarrow> step list \<Rightarrow> tree \<Rightarrow> bool" where
  "focus N s cs t \<longleftrightarrow>
     nodes_ok N \<and> NIL s \<in> N \<and> path_nodes cs \<subseteq> N \<and> set (inorder t) \<subseteq> N
     \<and> distinct (inorder t) \<and> path_distinct cs \<and> path_nodes cs \<inter> set (inorder t) = {}"

section \<open>Rotations\<close>

lemma distinct_fill:
  "distinct (inorder (fill cs t)) \<longleftrightarrow>
     distinct (inorder t) \<and> path_distinct cs \<and> path_nodes cs \<inter> set (inorder t) = {}"
proof (induction cs arbitrary: t)
  case Nil
  then show ?case by simp
next
  case (Cons st cs)
  obtain d c a sib where st: "st = (d, c, a, sib)" by (cases st)
  show ?case by (cases d) (auto simp: st Cons.IH)
qed

lemma tree_at_not_NIL: "tree_at s p par t \<Longrightarrow> NIL s \<notin> set (inorder t)"
  by (induction t arbitrary: p par) auto

lemma path_at_not_NIL: "path_at s cs p par \<Longrightarrow> NIL s \<notin> path_nodes cs"
proof (induction cs arbitrary: p par)
  case Nil
  then show ?case by simp
next
  case (Cons st cs)
  obtain d c a sib where st: "st = (d, c, a, sib)" by (cases st)
  show ?case using Cons by (cases d) (auto simp: st dest: tree_at_not_NIL)
qed

lemma tree_at_root: "tree_at s p par t \<Longrightarrow> p = NIL s \<or> p \<in> set (inorder t)"
  by (cases t) auto

lemma path_step_other:
  assumes "path_at s ((d, cp, pp, sib) # cs') x par" and "x \<noteq> NIL s" and "x \<notin> set (inorder sib)"
  shows "d = Rt \<Longrightarrow> LEFT s pp \<noteq> x" "d = Lt \<Longrightarrow> RIGHT s pp \<noteq> x"
  using assms tree_at_root [of s "LEFT s pp" pp sib] tree_at_root [of s "RIGHT s pp" pp sib]
  by auto

lemma left_rotate_path:
  assumes f: "focus N s cs (Node cx a x (Node cy b y c))"
    and p: "path_at s cs x par"
    and t: "tree_at s x par (Node cx a x (Node cy b y c))"
  shows "path_at (left_rotate s x) cs y par
       \<and> tree_at (left_rotate s x) y par (Node cy (Node cx a x b) y c)
       \<and> frame N s (left_rotate s x)
       \<and> LEFT (left_rotate s x) (NIL s) = LEFT s (NIL s)
       \<and> RIGHT (left_rotate s x) (NIL s) = RIGHT s (NIL s)
       \<and> COLOR (left_rotate s x) (NIL s) = COLOR s (NIL s)
       \<and> NIL (left_rotate s x) = NIL s"
proof -
  have ok: "nodes_ok N" using f by (simp add: focus_def)
  note rules = fld [OF ok] tree_at_write [OF ok] path_at_write [OF ok] frame_step frame_root
  have xn: "x \<noteq> NIL s" using t by simp
  show ?thesis
  proof (cases b)
    case Leaf
    show ?thesis
    proof (cases cs)
      case Nil
      have ne: "x \<noteq> y" "x \<noteq> NIL s" "y \<noteq> NIL s"
        using f p t unfolding Leaf Nil by (auto simp: focus_def)
      note ne = ne ne [symmetric]
      show ?thesis
        using f p t unfolding Leaf Nil
        by (simp add: focus_def left_rotate_def Let_def rules ne)
    next
      case (Cons st cs')
      obtain d cp pp sib where st: "st = (d, cp, pp, sib)" by (cases st)
      have xs: "x \<notin> set (inorder sib)" using f by (auto simp: focus_def Cons st)
      note o = path_step_other [OF p [unfolded Cons st] xn xs]
      have ne: "x \<noteq> y" "x \<noteq> pp" "x \<noteq> NIL s" "y \<noteq> pp" "y \<noteq> NIL s" "pp \<noteq> NIL s"
        using f p t unfolding Leaf Cons st by (auto simp: focus_def)
      note ne = ne ne [symmetric]
      show ?thesis
        using f p t o unfolding Leaf Cons st
        by (cases d) (simp_all add: focus_def left_rotate_def Let_def rules ne)
    qed
  next
    case (Node cb b1 b0 b2)
    show ?thesis
    proof (cases cs)
      case Nil
      have ne: "x \<noteq> y" "x \<noteq> b0" "x \<noteq> NIL s" "y \<noteq> b0" "y \<noteq> NIL s" "b0 \<noteq> NIL s"
        using f p t unfolding Node Nil by (auto simp: focus_def)
      note ne = ne ne [symmetric]
      show ?thesis
        using f p t unfolding Node Nil
        by (simp add: focus_def left_rotate_def Let_def rules ne)
    next
      case (Cons st cs')
      obtain d cp pp sib where st: "st = (d, cp, pp, sib)" by (cases st)
      have xs: "x \<notin> set (inorder sib)" using f by (auto simp: focus_def Cons st)
      note o = path_step_other [OF p [unfolded Cons st] xn xs]
      have ne: "x \<noteq> y" "x \<noteq> b0" "x \<noteq> pp" "x \<noteq> NIL s" "y \<noteq> b0" "y \<noteq> pp" "y \<noteq> NIL s" "b0 \<noteq> pp" "b0 \<noteq> NIL s" "pp \<noteq> NIL s"
        using f p t unfolding Node Cons st by (auto simp: focus_def)
      note ne = ne ne [symmetric]
      show ?thesis
        using f p t o unfolding Node Cons st
        by (cases d) (simp_all add: focus_def left_rotate_def Let_def rules ne)
    qed
  qed
qed

lemma right_rotate_path:
  assumes f: "focus N s cs (Node cx (Node cy c y b) x a)"
    and p: "path_at s cs x par"
    and t: "tree_at s x par (Node cx (Node cy c y b) x a)"
  shows "path_at (right_rotate s x) cs y par
       \<and> tree_at (right_rotate s x) y par (Node cy c y (Node cx b x a))
       \<and> frame N s (right_rotate s x)
       \<and> RIGHT (right_rotate s x) (NIL s) = RIGHT s (NIL s)
       \<and> LEFT (right_rotate s x) (NIL s) = LEFT s (NIL s)
       \<and> COLOR (right_rotate s x) (NIL s) = COLOR s (NIL s)
       \<and> NIL (right_rotate s x) = NIL s"
proof -
  have ok: "nodes_ok N" using f by (simp add: focus_def)
  note rules = fld [OF ok] tree_at_write [OF ok] path_at_write [OF ok] frame_step frame_root
  have xn: "x \<noteq> NIL s" using t by simp
  show ?thesis
  proof (cases b)
    case Leaf
    show ?thesis
    proof (cases cs)
      case Nil
      have ne: "x \<noteq> y" "x \<noteq> NIL s" "y \<noteq> NIL s"
        using f p t unfolding Leaf Nil by (auto simp: focus_def)
      note ne = ne ne [symmetric]
      show ?thesis
        using f p t unfolding Leaf Nil
        by (simp add: focus_def right_rotate_def Let_def rules ne)
    next
      case (Cons st cs')
      obtain d cp pp sib where st: "st = (d, cp, pp, sib)" by (cases st)
      have xs: "x \<notin> set (inorder sib)" using f by (auto simp: focus_def Cons st)
      note o = path_step_other [OF p [unfolded Cons st] xn xs]
      have ne: "x \<noteq> y" "x \<noteq> pp" "x \<noteq> NIL s" "y \<noteq> pp" "y \<noteq> NIL s" "pp \<noteq> NIL s"
        using f p t unfolding Leaf Cons st by (auto simp: focus_def)
      note ne = ne ne [symmetric]
      show ?thesis
        using f p t o unfolding Leaf Cons st
        by (cases d) (simp_all add: focus_def right_rotate_def Let_def rules ne)
    qed
  next
    case (Node cb b1 b0 b2)
    show ?thesis
    proof (cases cs)
      case Nil
      have ne: "x \<noteq> y" "x \<noteq> b0" "x \<noteq> NIL s" "y \<noteq> b0" "y \<noteq> NIL s" "b0 \<noteq> NIL s"
        using f p t unfolding Node Nil by (auto simp: focus_def)
      note ne = ne ne [symmetric]
      show ?thesis
        using f p t unfolding Node Nil
        by (simp add: focus_def right_rotate_def Let_def rules ne)
    next
      case (Cons st cs')
      obtain d cp pp sib where st: "st = (d, cp, pp, sib)" by (cases st)
      have xs: "x \<notin> set (inorder sib)" using f by (auto simp: focus_def Cons st)
      note o = path_step_other [OF p [unfolded Cons st] xn xs]
      have ne: "x \<noteq> y" "x \<noteq> b0" "x \<noteq> pp" "x \<noteq> NIL s" "y \<noteq> b0" "y \<noteq> pp" "y \<noteq> NIL s" "b0 \<noteq> pp" "b0 \<noteq> NIL s" "pp \<noteq> NIL s"
        using f p t unfolding Node Cons st by (auto simp: focus_def)
      note ne = ne ne [symmetric]
      show ?thesis
        using f p t o unfolding Node Cons st
        by (cases d) (simp_all add: focus_def right_rotate_def Let_def rules ne)
    qed
  qed
qed

text \<open>
  \<open>nil_ok s\<close>: the children of the sentinel are the sentinel and its colour is
  \<^verbatim>\<open>BLACK\<close>.  \<open>ptr n t\<close> is the pointer that stands for the tree \<open>t\<close>, with \<open>n\<close>
  for the empty tree.  \<open>conf N s cs p par t\<close> puts together a position in the
  tree in memory: the path \<open>cs\<close>, and the subtree \<open>t\<close> at the pointer \<open>p\<close> in its
  hole, below the node \<open>par\<close>.
\<close>

definition nil_ok :: "state \<Rightarrow> bool" where
  "nil_ok s \<longleftrightarrow> LEFT s (NIL s) = NIL s \<and> RIGHT s (NIL s) = NIL s \<and> COLOR s (NIL s) = BLACK"

fun ptr :: "addr \<Rightarrow> tree \<Rightarrow> addr" where
  "ptr n Leaf = n"
| "ptr n (Node c l a r) = a"

definition conf :: "addr set \<Rightarrow> state \<Rightarrow> step list \<Rightarrow> addr \<Rightarrow> addr \<Rightarrow> tree \<Rightarrow> bool" where
  "conf N s cs p par t \<longleftrightarrow> focus N s cs t \<and> path_at s cs p par \<and> tree_at s p par t \<and> nil_ok s"

text \<open>The node that a step of a path makes of the subtree below it.\<close>

fun node :: "side \<Rightarrow> colour \<Rightarrow> tree \<Rightarrow> addr \<Rightarrow> tree \<Rightarrow> tree" where
  "node Lt c t a sib = Node c t a sib"
| "node Rt c t a sib = Node c sib a t"

text \<open>
  \<open>dir_ok s sz cs\<close>: the path \<open>cs\<close> is the one that the search for the place of a
  block of size \<open>sz\<close> takes: to the left where \<open>sz\<close> is below the key, to the right
  otherwise.
\<close>

fun dir_ok :: "state \<Rightarrow> u32 \<Rightarrow> step list \<Rightarrow> bool" where
  "dir_ok s sz [] \<longleftrightarrow> True"
| "dir_ok s sz ((d, c, a, sib) # cs) \<longleftrightarrow> (d = Lt \<longleftrightarrow> sz < key s a) \<and> dir_ok s sz cs"

section \<open>Moving in a tree in memory\<close>

lemma tree_at_ptr: "tree_at s p par t \<Longrightarrow> p = ptr (NIL s) t"
  by (cases t) auto

lemma conf_up_Lt:
  "conf N s ((Lt, c, a, sib) # cs) p par t \<Longrightarrow> conf N s cs a (PARENT s a) (Node c t a sib) \<and> par = a"
  by (auto simp: conf_def focus_def)

lemma conf_up_Rt:
  "conf N s ((Rt, c, a, sib) # cs) p par t \<Longrightarrow> conf N s cs a (PARENT s a) (Node c sib a t) \<and> par = a"
  by (auto simp: conf_def focus_def)

lemma conf_down_Lt:
  "conf N s cs a par (Node c l a r) \<Longrightarrow> conf N s ((Lt, c, a, r) # cs) (LEFT s a) a l"
  by (auto simp: conf_def focus_def)

lemma conf_down_Rt:
  "conf N s cs a par (Node c l a r) \<Longrightarrow> conf N s ((Rt, c, a, l) # cs) (RIGHT s a) a r"
  by (auto simp: conf_def focus_def)

lemma conf_reads:
  assumes "conf N s cs a par (Node c l a r)"
  shows "PARENT s a = par" "LEFT s a = ptr (NIL s) l" "RIGHT s a = ptr (NIL s) r"
    "COLOR s a = colour_code c" "a \<noteq> NIL s" "a \<in> N" "NIL s \<in> N" "nodes_ok N"
  using assms tree_at_ptr [of s "LEFT s a" a l] tree_at_ptr [of s "RIGHT s a" a r]
  by (auto simp: conf_def focus_def)

lemma conf_par:
  assumes "conf N s cs p par t"
  shows "par \<in> N" "cs = [] \<Longrightarrow> par = NIL s \<and> root s = p" "cs \<noteq> [] \<Longrightarrow> par \<noteq> NIL s"
  using assms by (cases cs; auto simp: conf_def focus_def)+

lemma conf_colour:
  assumes "conf N s cs a par (Node c l a r)"
  shows "conf N (SET_COLOR s a (colour_code c')) cs a par (Node c' l a r)"
proof -
  have ok: "nodes_ok N" and a: "a \<in> N" and n: "NIL s \<in> N" and an: "a \<noteq> NIL s"
    using assms by (auto simp: conf_def focus_def)
  have sub: "path_nodes cs \<subseteq> N" "set (inorder l) \<subseteq> N" "set (inorder r) \<subseteq> N"
    and notin: "a \<notin> path_nodes cs" "a \<notin> set (inorder l)" "a \<notin> set (inorder r)"
    using assms by (auto simp: conf_def focus_def)
  note w = tree_at_write(4) [OF ok a sub(2) notin(2)] tree_at_write(4) [OF ok a sub(3) notin(3)]
    path_at_write(4) [OF ok a sub(1) notin(1)]
  show ?thesis
    using assms an
    by (simp add: conf_def focus_def nil_ok_def w fld_SET_COLOR [OF ok a a]
        fld_other [OF ok a n])
qed

lemma frame_colour: "a \<in> N \<Longrightarrow> frame N s (SET_COLOR s a c)"
  by (rule frame_step [OF frame_refl])

lemma conf_left_rotate:
  assumes "conf N s cs x par (Node cx a x (Node cy b y c))"
  shows "conf N (left_rotate s x) cs y par (Node cy (Node cx a x b) y c)"
    and "frame N s (left_rotate s x)"
proof -
  have f: "focus N s cs (Node cx a x (Node cy b y c))" and p: "path_at s cs x par"
    and t: "tree_at s x par (Node cx a x (Node cy b y c))"
    using assms by (simp_all add: conf_def)
  note r = left_rotate_path [OF f p t]
  show "conf N (left_rotate s x) cs y par (Node cy (Node cx a x b) y c)"
    using assms r by (auto simp: conf_def focus_def nil_ok_def)
  show "frame N s (left_rotate s x)" using r by simp
qed

lemma conf_right_rotate:
  assumes "conf N s cs x par (Node cx (Node cy a y b) x c)"
  shows "conf N (right_rotate s x) cs y par (Node cy a y (Node cx b x c))"
    and "frame N s (right_rotate s x)"
proof -
  have f: "focus N s cs (Node cx (Node cy a y b) x c)" and p: "path_at s cs x par"
    and t: "tree_at s x par (Node cx (Node cy a y b) x c)"
    using assms by (simp_all add: conf_def)
  note r = right_rotate_path [OF f p t]
  show "conf N (right_rotate s x) cs y par (Node cy a y (Node cx b x c))"
    using assms r by (auto simp: conf_def focus_def nil_ok_def)
  show "frame N s (right_rotate s x)" using r by simp
qed

lemma path_root_parent: "path_at s cs p par \<Longrightarrow> cs \<noteq> [] \<Longrightarrow> PARENT s (root s) = NIL s"
proof (induction cs arbitrary: p par)
  case Nil
  then show ?case by simp
next
  case (Cons st cs)
  obtain d c a sib where st: "st = (d, c, a, sib)" by (cases st)
  show ?case
  proof (cases cs)
    case Nil
    then show ?thesis using Cons.prems by (simp add: st)
  next
    case (Cons st' cs')
    have "path_at s cs a (PARENT s a)" using Cons.prems by (simp add: st)
    then show ?thesis by (rule Cons.IH) (simp add: Cons)
  qed
qed

lemma conf_not_root:
  assumes "conf N s cs a par (Node c l a r)" and "cs \<noteq> []"
  shows "a \<noteq> root s"
proof
  assume "a = root s"
  then have "PARENT s a = NIL s" using path_root_parent [of s cs a par] assms
    by (simp add: conf_def)
  moreover have "PARENT s a = par" "par \<noteq> NIL s"
    using assms by (cases cs; auto simp: conf_def)+
  ultimately show False by simp
qed

lemma fill_node: "fill ((d, c, a, sib) # cs) t = fill cs (node d c t a sib)"
  by (cases d) simp_all

lemma conf_up:
  assumes "conf N s ((d, c, a, sib) # cs) p par t"
  shows "conf N s cs a (PARENT s a) (node d c t a sib)" "par = a" "a \<noteq> NIL s"
proof -
  have "conf N s cs a (PARENT s a) (node d c t a sib) \<and> par = a"
  proof (cases d)
    case Lt
    then show ?thesis using conf_up_Lt [of N s c a sib cs p par t] assms by simp
  next
    case Rt
    then show ?thesis using conf_up_Rt [of N s c a sib cs p par t] assms by simp
  qed
  then show "conf N s cs a (PARENT s a) (node d c t a sib)" "par = a" by simp_all
  show "a \<noteq> NIL s" using assms by (simp add: conf_def)
qed

lemma conf_fill: "conf N s cs p par t \<Longrightarrow> conf N s [] (root s) (NIL s) (fill cs t)"
proof (induction cs arbitrary: p par t)
  case Nil
  then show ?case by (auto simp: conf_def)
next
  case (Cons st cs)
  obtain d c a sib where st: "st = (d, c, a, sib)" by (cases st)
  show ?case
    using Cons.IH [OF conf_up(1) [OF Cons.prems [unfolded st]]] by (simp add: st fill_node)
qed

lemma conf_reads_node:
  assumes "conf N s cs a par (node d c t a sib)"
  shows "PARENT s a = par" "COLOR s a = colour_code c" "a \<noteq> NIL s" "a \<in> N"
    "d = Lt \<Longrightarrow> LEFT s a = ptr (NIL s) t" "d = Lt \<Longrightarrow> RIGHT s a = ptr (NIL s) sib"
    "d = Rt \<Longrightarrow> RIGHT s a = ptr (NIL s) t" "d = Rt \<Longrightarrow> LEFT s a = ptr (NIL s) sib"
proof -
  have "PARENT s a = par \<and> COLOR s a = colour_code c \<and> a \<noteq> NIL s \<and> a \<in> N
      \<and> (d = Lt \<longrightarrow> LEFT s a = ptr (NIL s) t \<and> RIGHT s a = ptr (NIL s) sib)
      \<and> (d = Rt \<longrightarrow> RIGHT s a = ptr (NIL s) t \<and> LEFT s a = ptr (NIL s) sib)"
  proof (cases d)
    case Lt
    then show ?thesis using conf_reads [of N s cs a par c t sib] assms by simp
  next
    case Rt
    then show ?thesis using conf_reads [of N s cs a par c sib t] assms by simp
  qed
  then show "PARENT s a = par" "COLOR s a = colour_code c" "a \<noteq> NIL s" "a \<in> N"
    "d = Lt \<Longrightarrow> LEFT s a = ptr (NIL s) t" "d = Lt \<Longrightarrow> RIGHT s a = ptr (NIL s) sib"
    "d = Rt \<Longrightarrow> RIGHT s a = ptr (NIL s) t" "d = Rt \<Longrightarrow> LEFT s a = ptr (NIL s) sib"
    by simp_all
qed

lemma conf_colour_node:
  assumes "conf N s cs a par (node d c t a sib)"
  shows "conf N (SET_COLOR s a (colour_code c')) cs a par (node d c' t a sib)"
proof (cases d)
  case Lt
  then show ?thesis using conf_colour [of N s cs a par c t sib c'] assms by simp
next
  case Rt
  then show ?thesis using conf_colour [of N s cs a par c sib t c'] assms by simp
qed

lemma ptr_cases: "ptr n t = n \<or> ptr n t \<in> set (inorder t)"
  by (cases t) auto

lemma conf_child_colour:
  assumes "conf N s cs a par (Node c l a r)"
  shows "COLOR s (LEFT s a) = colour_code (colour_of l)"
    "COLOR s (RIGHT s a) = colour_code (colour_of r)"
  using assms by (cases l; cases r; auto simp: conf_def nil_ok_def)+

section \<open>Restoring the colours after an insertion\<close>

lemma ptr_node [simp]: "ptr n (node d c t a sib) = a"
  by (cases d) simp_all

lemma inorder_node_set [simp]:
  "set (inorder (node d c t a sib)) = insert a (set (inorder t) \<union> set (inorder sib))"
  by (cases d) auto

lemma ins_red_uncle_Lt:
  assumes c: "conf N s ((d, R, p, sib) # (Lt, B, g, Node R ul u ur) # cs) z par (Node R l z r)"
  shows "\<exists>s'. rbt_insert_fixup_loop s z = rbt_insert_fixup_loop s' g
     \<and> conf N s' cs g (PARENT s' g) (Node R (node d B (Node R l z r) p sib) g (Node B ul u ur))
     \<and> frame N s s'"
proof -
  let ?Z = "Node R l z r"
  note c1 = conf_up [OF c]
  note c2 = conf_up [OF c1(1)]
  have c2': "conf N s cs g (PARENT s g) (Node B (node d R ?Z p sib) g (Node R ul u ur))"
    using c2(1) by simp
  note rz = conf_reads [OF c]
  note rp = conf_reads_node [OF c1(1)]
  note rg = conf_reads [OF c2']
  have c3: "conf N s ((Rt, B, g, node d R ?Z p sib) # cs) u g (Node R ul u ur)"
    using conf_down_Rt [OF c2'] rg by simp
  note ru = conf_reads [OF c3]
  have ok: "nodes_ok N" by (rule rz)
  define s1 where "s1 = SET_COLOR s p 0"
  define s2 where "s2 = SET_COLOR s1 u 0"
  define s3 where "s3 = SET_COLOR s2 g 1"
  have d1: "conf N s1 ((Lt, B, g, Node R ul u ur) # cs) p (PARENT s p) (node d B ?Z p sib)"
    using conf_colour_node [OF c1(1), of B] by (simp add: s1_def)
  note d2 = conf_up [OF d1]
  have d2': "conf N s1 cs g (PARENT s1 g) (Node B (node d B ?Z p sib) g (Node R ul u ur))"
    using d2(1) by simp
  have d3: "conf N s1 ((Rt, B, g, node d B ?Z p sib) # cs) u g (Node R ul u ur)"
    using conf_down_Rt [OF d2'] conf_reads [OF d2'] by simp
  have e1: "conf N s2 ((Rt, B, g, node d B ?Z p sib) # cs) u g (Node B ul u ur)"
    using conf_colour [OF d3, of B] by (simp add: s2_def)
  note e2 = conf_up [OF e1]
  have e2': "conf N s2 cs g (PARENT s2 g) (Node B (node d B ?Z p sib) g (Node B ul u ur))"
    using e2(1) by simp
  have f1: "conf N s3 cs g (PARENT s2 g) (Node R (node d B ?Z p sib) g (Node B ul u ur))"
    using conf_colour [OF e2', of R] by (simp add: s3_def)
  have f2: "PARENT s3 g = PARENT s2 g" by (rule conf_reads [OF f1])
  have fr: "frame N s s3"
    unfolding s3_def s2_def s1_def
    by (intro frame_step frame_refl rp rg ru)
  have nr: "z \<noteq> root s" by (rule conf_not_root [OF c]) simp
  have reads: "PARENT s z = p" "PARENT s p = g" "LEFT s g = p" "RIGHT s g = u"
    "COLOR s p = 1" "COLOR s u = 1"
    using rz rp rg ru c1(2) c2(2) by simp_all
  have mem: "z \<in> N" "p \<in> N" "g \<in> N" "u \<in> N" by (rule rz rp rg ru)+
  have ne: "p \<noteq> u" using c2' by (auto simp: conf_def focus_def)
  note ne = ne ne [symmetric]
  have "rbt_insert_fixup_loop s z = rbt_insert_fixup_loop s3 g"
    by (subst rbt_insert_fixup_loop_step)
       (simp_all add: nr reads Let_def s1_def s2_def s3_def fld_SET_COLOR [OF ok] mem ne)
  then show ?thesis using f1 f2 fr by auto
qed

lemma ins_red_uncle_Rt:
  assumes c: "conf N s ((d, R, p, sib) # (Rt, B, g, Node R ul u ur) # cs) z par (Node R l z r)"
  shows "\<exists>s'. rbt_insert_fixup_loop s z = rbt_insert_fixup_loop s' g
     \<and> conf N s' cs g (PARENT s' g) (Node R (Node B ul u ur) g (node d B (Node R l z r) p sib))
     \<and> frame N s s'"
proof -
  let ?Z = "Node R l z r"
  note c1 = conf_up [OF c]
  note c2 = conf_up [OF c1(1)]
  have c2': "conf N s cs g (PARENT s g) (Node B (Node R ul u ur) g (node d R ?Z p sib))"
    using c2(1) by simp
  note rz = conf_reads [OF c]
  note rp = conf_reads_node [OF c1(1)]
  note rg = conf_reads [OF c2']
  have c3: "conf N s ((Lt, B, g, node d R ?Z p sib) # cs) u g (Node R ul u ur)"
    using conf_down_Lt [OF c2'] rg by simp
  note ru = conf_reads [OF c3]
  have ok: "nodes_ok N" by (rule rz)
  define s1 where "s1 = SET_COLOR s p 0"
  define s2 where "s2 = SET_COLOR s1 u 0"
  define s3 where "s3 = SET_COLOR s2 g 1"
  have d1: "conf N s1 ((Rt, B, g, Node R ul u ur) # cs) p (PARENT s p) (node d B ?Z p sib)"
    using conf_colour_node [OF c1(1), of B] by (simp add: s1_def)
  note d2 = conf_up [OF d1]
  have d2': "conf N s1 cs g (PARENT s1 g) (Node B (Node R ul u ur) g (node d B ?Z p sib))"
    using d2(1) by simp
  have d3: "conf N s1 ((Lt, B, g, node d B ?Z p sib) # cs) u g (Node R ul u ur)"
    using conf_down_Lt [OF d2'] conf_reads [OF d2'] by simp
  have e1: "conf N s2 ((Lt, B, g, node d B ?Z p sib) # cs) u g (Node B ul u ur)"
    using conf_colour [OF d3, of B] by (simp add: s2_def)
  note e2 = conf_up [OF e1]
  have e2': "conf N s2 cs g (PARENT s2 g) (Node B (Node B ul u ur) g (node d B ?Z p sib))"
    using e2(1) by simp
  have f1: "conf N s3 cs g (PARENT s2 g) (Node R (Node B ul u ur) g (node d B ?Z p sib))"
    using conf_colour [OF e2', of R] by (simp add: s3_def)
  have f2: "PARENT s3 g = PARENT s2 g" by (rule conf_reads [OF f1])
  have fr: "frame N s s3"
    unfolding s3_def s2_def s1_def
    by (intro frame_step frame_refl rp rg ru)
  have nr: "z \<noteq> root s" by (rule conf_not_root [OF c]) simp
  have reads: "PARENT s z = p" "PARENT s p = g" "RIGHT s g = p" "LEFT s g = u"
    "COLOR s p = 1" "COLOR s u = 1"
    using rz rp rg ru c1(2) c2(2) by simp_all
  have mem: "z \<in> N" "p \<in> N" "g \<in> N" "u \<in> N" by (rule rz rp rg ru)+
  have ne: "p \<noteq> u" using c2' by (auto simp: conf_def focus_def)
  note ne = ne ne [symmetric]
  have "rbt_insert_fixup_loop s z = rbt_insert_fixup_loop s3 g"
    by (subst rbt_insert_fixup_loop_step)
       (simp_all add: nr reads Let_def s1_def s2_def s3_def fld_SET_COLOR [OF ok] mem ne)
  then show ?thesis using f1 f2 fr by auto
qed

lemma ins_fix_exit:
  assumes c: "conf N s cs z par (Node c l z r)" and t: "cs = [] \<or> top_colour cs = B"
  shows "rbt_insert_fixup_loop s z = Some (s, z)"
proof (cases cs)
  case Nil
  then show ?thesis using c by (intro rbt_insert_fixup_loop_stop) (simp add: conf_def)
next
  case (Cons st cs')
  obtain d cp p sib where st: "st = (d, cp, p, sib)" by (cases st)
  note c1 = conf_up [OF c [unfolded Cons st]]
  have "COLOR s (PARENT s z) = 0"
    using conf_reads [OF c] conf_reads_node [OF c1(1)] c1(2) t by (simp add: Cons st)
  then show ?thesis by (intro rbt_insert_fixup_loop_stop) simp
qed

lemma ins_black_uncle_outer_Lt:
  assumes c: "conf N s ((Lt, R, p, sib) # (Lt, B, g, unc) # cs) z par (Node R l z r)"
    and u: "colour_of unc = B"
  shows "\<exists>s' par'. rbt_insert_fixup_loop s z = Some (s', z)
     \<and> conf N s' cs p par' (Node B (Node R l z r) p (Node R sib g unc))
     \<and> frame N s s'"
proof -
  let ?Z = "(Node R l z r)"
  note c1 = conf_up [OF c]
  note c2 = conf_up [OF c1(1)]
  have c1': "conf N s ((Lt, B, g, unc) # cs) p (PARENT s p) (Node R ?Z p sib)"
    using c1(1) by simp
  have c2': "conf N s cs g (PARENT s g) (Node B (Node R ?Z p sib) g unc)"
    using c2(1) by simp
  note rz = conf_reads [OF c]
  note rp = conf_reads [OF c1']
  note rg = conf_reads [OF c2']
  have ok: "nodes_ok N" by (rule rz)
  have mem: "z \<in> N" "p \<in> N" "g \<in> N" by (rule rz rp rg)+
  define s1 where "s1 = SET_COLOR s p 0"
  define s2 where "s2 = SET_COLOR s1 g 1"
  define s3 where "s3 = right_rotate s2 g"
  have d1: "conf N s1 ((Lt, B, g, unc) # cs) p (PARENT s p) (Node B ?Z p sib)"
    using conf_colour [OF c1', of B] by (simp add: s1_def)
  note d2 = conf_up [OF d1]
  have d2': "conf N s1 cs g (PARENT s1 g) (Node B (Node B ?Z p sib) g unc)"
    using d2(1) by simp
  have e1: "conf N s2 cs g (PARENT s1 g) (Node R (Node B ?Z p sib) g unc)"
    using conf_colour [OF d2', of R] by (simp add: s2_def)
  note f1 = conf_right_rotate [OF e1, folded s3_def]
  have f2: "conf N s3 ((Lt, B, p, (Node R sib g unc)) # cs) z p ?Z"
    using conf_down_Lt [OF f1(1)] conf_reads [OF f1(1)] by simp
  have ex: "rbt_insert_fixup_loop s3 z = Some (s3, z)"
    by (rule ins_fix_exit [OF f2]) simp
  have fr1: "frame N s s1" unfolding s1_def by (rule frame_colour [OF mem(2)])
  have fr2: "frame N s1 s2" unfolding s2_def by (rule frame_colour [OF mem(3)])
  have fr: "frame N s s3" by (rule frame_trans [OF frame_trans [OF fr1 fr2] f1(2)])
  have nr: "z \<noteq> root s" by (rule conf_not_root [OF c]) simp
  have zs: "z \<noteq> ptr (NIL s) sib"
    using ptr_cases [of "NIL s" sib] c by (auto simp: conf_def focus_def)
  have pu: "p \<noteq> ptr (NIL s) unc"
    using ptr_cases [of "NIL s" unc] c2' by (auto simp: conf_def focus_def)
  have reads: "PARENT s z = p" "PARENT s p = g" "LEFT s g = p" "RIGHT s p \<noteq> z" "z \<noteq> RIGHT s p"
    "COLOR s p = 1" "COLOR s (RIGHT s g) = 0" "RIGHT s g \<noteq> p" "p \<noteq> RIGHT s g"
    using rz rp rg c1(2) c2(2) conf_child_colour [OF c2'] u zs pu by simp_all
  have "rbt_insert_fixup_loop s z = rbt_insert_fixup_loop s3 z"
    by (subst rbt_insert_fixup_loop_step)
       (simp_all add: nr reads Let_def s1_def s2_def s3_def fld_SET_COLOR [OF ok] mem)
  then show ?thesis using f1(1) ex fr by auto
qed

lemma ins_black_uncle_inner_Lt:
  assumes c: "conf N s ((Rt, R, p, sib) # (Lt, B, g, unc) # cs) z par (Node R l z r)"
    and u: "colour_of unc = B"
  shows "\<exists>s' par'. rbt_insert_fixup_loop s z = Some (s', p)
     \<and> conf N s' cs z par' (Node B (Node R sib p l) z (Node R r g unc))
     \<and> frame N s s'"
proof -
  let ?Z = "(Node R l z r)"
  note c1 = conf_up [OF c]
  note c2 = conf_up [OF c1(1)]
  have c1': "conf N s ((Lt, B, g, unc) # cs) p (PARENT s p) (Node R sib p ?Z)"
    using c1(1) by simp
  have c2': "conf N s cs g (PARENT s g) (Node B (Node R sib p ?Z) g unc)"
    using c2(1) by simp
  note rz = conf_reads [OF c]
  note rp = conf_reads [OF c1']
  note rg = conf_reads [OF c2']
  have ok: "nodes_ok N" by (rule rz)
  have mem: "z \<in> N" "p \<in> N" "g \<in> N" by (rule rz rp rg)+
  define s1 where "s1 = left_rotate s p"
  define s2 where "s2 = SET_COLOR s1 z 0"
  define s3 where "s3 = SET_COLOR s2 g 1"
  define s4 where "s4 = right_rotate s3 g"
  note d1 = conf_left_rotate [OF c1', folded s1_def]
  note d1u = conf_up [OF d1(1)]
  have dp: "conf N s1 ((Lt, R, z, r) # (Lt, B, g, unc) # cs) p z (Node R sib p l)"
    using conf_down_Lt [OF d1(1)] conf_reads [OF d1(1)] by simp
  have e1: "conf N s2 ((Lt, B, g, unc) # cs) z (PARENT s p) (Node B (Node R sib p l) z r)"
    using conf_colour [OF d1(1), of B] by (simp add: s2_def)
  note e2 = conf_up [OF e1]
  have e2': "conf N s2 cs g (PARENT s2 g) (Node B ((Node B (Node R sib p l) z r)) g unc)"
    using e2(1) by simp
  have f1: "conf N s3 cs g (PARENT s2 g) (Node R ((Node B (Node R sib p l) z r)) g unc)"
    using conf_colour [OF e2', of R] by (simp add: s3_def)
  note g1 = conf_right_rotate [OF f1, folded s4_def]
  have g2: "conf N s4 ((Lt, B, z, (Node R r g unc)) # cs) p z (Node R sib p l)"
    using conf_down_Lt [OF g1(1)] conf_reads [OF g1(1)] by simp
  have ex: "rbt_insert_fixup_loop s4 p = Some (s4, p)"
    by (rule ins_fix_exit [OF g2]) simp
  have fr2: "frame N s1 s2" unfolding s2_def by (rule frame_colour [OF mem(1)])
  have fr3: "frame N s2 s3" unfolding s3_def by (rule frame_colour [OF mem(3)])
  have fr: "frame N s s4"
    by (rule frame_trans [OF frame_trans [OF frame_trans [OF d1(2) fr2] fr3] g1(2)])
  have nr: "z \<noteq> root s" by (rule conf_not_root [OF c]) simp
  have pu: "p \<noteq> ptr (NIL s) unc"
    using ptr_cases [of "NIL s" unc] c2' by (auto simp: conf_def focus_def)
  have zs: "z \<noteq> ptr (NIL s) sib"
    using ptr_cases [of "NIL s" sib] c by (auto simp: conf_def focus_def)
  have reads: "PARENT s z = p" "PARENT s p = g" "LEFT s g = p" "RIGHT s p = z"
    "COLOR s p = 1" "COLOR s (RIGHT s g) = 0" "RIGHT s g \<noteq> p" "p \<noteq> RIGHT s g"
    "LEFT s p \<noteq> z" "z \<noteq> LEFT s p"
    using rz rp rg c1(2) c2(2) conf_child_colour [OF c2'] u pu zs by simp_all
  have reads1: "PARENT s1 p = z" "PARENT s1 z = g"
    using conf_reads(1) [OF dp] conf_reads(1) [OF d1(1)] c2(2) by simp_all
  have "rbt_insert_fixup_loop s z = rbt_insert_fixup_loop s4 p"
    by (subst rbt_insert_fixup_loop_step)
       (simp_all add: nr reads Let_def s1_def [symmetric] reads1 s2_def s3_def s4_def
          fld_SET_COLOR [OF ok] mem)
  then show ?thesis using g1(1) ex fr by auto
qed

lemma ins_black_uncle_outer_Rt:
  assumes c: "conf N s ((Rt, R, p, sib) # (Rt, B, g, unc) # cs) z par (Node R r z l)"
    and u: "colour_of unc = B"
  shows "\<exists>s' par'. rbt_insert_fixup_loop s z = Some (s', z)
     \<and> conf N s' cs p par' (Node B (Node R unc g sib) p (Node R r z l))
     \<and> frame N s s'"
proof -
  let ?Z = "(Node R r z l)"
  note c1 = conf_up [OF c]
  note c2 = conf_up [OF c1(1)]
  have c1': "conf N s ((Rt, B, g, unc) # cs) p (PARENT s p) (Node R sib p ?Z)"
    using c1(1) by simp
  have c2': "conf N s cs g (PARENT s g) (Node B unc g (Node R sib p ?Z))"
    using c2(1) by simp
  note rz = conf_reads [OF c]
  note rp = conf_reads [OF c1']
  note rg = conf_reads [OF c2']
  have ok: "nodes_ok N" by (rule rz)
  have mem: "z \<in> N" "p \<in> N" "g \<in> N" by (rule rz rp rg)+
  define s1 where "s1 = SET_COLOR s p 0"
  define s2 where "s2 = SET_COLOR s1 g 1"
  define s3 where "s3 = left_rotate s2 g"
  have d1: "conf N s1 ((Rt, B, g, unc) # cs) p (PARENT s p) (Node B sib p ?Z)"
    using conf_colour [OF c1', of B] by (simp add: s1_def)
  note d2 = conf_up [OF d1]
  have d2': "conf N s1 cs g (PARENT s1 g) (Node B unc g (Node B sib p ?Z))"
    using d2(1) by simp
  have e1: "conf N s2 cs g (PARENT s1 g) (Node R unc g (Node B sib p ?Z))"
    using conf_colour [OF d2', of R] by (simp add: s2_def)
  note f1 = conf_left_rotate [OF e1, folded s3_def]
  have f2: "conf N s3 ((Rt, B, p, (Node R unc g sib)) # cs) z p ?Z"
    using conf_down_Rt [OF f1(1)] conf_reads [OF f1(1)] by simp
  have ex: "rbt_insert_fixup_loop s3 z = Some (s3, z)"
    by (rule ins_fix_exit [OF f2]) simp
  have fr1: "frame N s s1" unfolding s1_def by (rule frame_colour [OF mem(2)])
  have fr2: "frame N s1 s2" unfolding s2_def by (rule frame_colour [OF mem(3)])
  have fr: "frame N s s3" by (rule frame_trans [OF frame_trans [OF fr1 fr2] f1(2)])
  have nr: "z \<noteq> root s" by (rule conf_not_root [OF c]) simp
  have zs: "z \<noteq> ptr (NIL s) sib"
    using ptr_cases [of "NIL s" sib] c by (auto simp: conf_def focus_def)
  have pu: "p \<noteq> ptr (NIL s) unc"
    using ptr_cases [of "NIL s" unc] c2' by (auto simp: conf_def focus_def)
  have reads: "PARENT s z = p" "PARENT s p = g" "RIGHT s g = p" "LEFT s p \<noteq> z" "z \<noteq> LEFT s p"
    "COLOR s p = 1" "COLOR s (LEFT s g) = 0" "LEFT s g \<noteq> p" "p \<noteq> LEFT s g"
    using rz rp rg c1(2) c2(2) conf_child_colour [OF c2'] u zs pu by simp_all
  have "rbt_insert_fixup_loop s z = rbt_insert_fixup_loop s3 z"
    by (subst rbt_insert_fixup_loop_step)
       (simp_all add: nr reads Let_def s1_def s2_def s3_def fld_SET_COLOR [OF ok] mem)
  then show ?thesis using f1(1) ex fr by auto
qed

lemma ins_black_uncle_inner_Rt:
  assumes c: "conf N s ((Lt, R, p, sib) # (Rt, B, g, unc) # cs) z par (Node R r z l)"
    and u: "colour_of unc = B"
  shows "\<exists>s' par'. rbt_insert_fixup_loop s z = Some (s', p)
     \<and> conf N s' cs z par' (Node B (Node R unc g r) z (Node R l p sib))
     \<and> frame N s s'"
proof -
  let ?Z = "(Node R r z l)"
  note c1 = conf_up [OF c]
  note c2 = conf_up [OF c1(1)]
  have c1': "conf N s ((Rt, B, g, unc) # cs) p (PARENT s p) (Node R ?Z p sib)"
    using c1(1) by simp
  have c2': "conf N s cs g (PARENT s g) (Node B unc g (Node R ?Z p sib))"
    using c2(1) by simp
  note rz = conf_reads [OF c]
  note rp = conf_reads [OF c1']
  note rg = conf_reads [OF c2']
  have ok: "nodes_ok N" by (rule rz)
  have mem: "z \<in> N" "p \<in> N" "g \<in> N" by (rule rz rp rg)+
  define s1 where "s1 = right_rotate s p"
  define s2 where "s2 = SET_COLOR s1 z 0"
  define s3 where "s3 = SET_COLOR s2 g 1"
  define s4 where "s4 = left_rotate s3 g"
  note d1 = conf_right_rotate [OF c1', folded s1_def]
  note d1u = conf_up [OF d1(1)]
  have dp: "conf N s1 ((Rt, R, z, r) # (Rt, B, g, unc) # cs) p z (Node R l p sib)"
    using conf_down_Rt [OF d1(1)] conf_reads [OF d1(1)] by simp
  have e1: "conf N s2 ((Rt, B, g, unc) # cs) z (PARENT s p) (Node B r z (Node R l p sib))"
    using conf_colour [OF d1(1), of B] by (simp add: s2_def)
  note e2 = conf_up [OF e1]
  have e2': "conf N s2 cs g (PARENT s2 g) (Node B unc g ((Node B r z (Node R l p sib))))"
    using e2(1) by simp
  have f1: "conf N s3 cs g (PARENT s2 g) (Node R unc g ((Node B r z (Node R l p sib))))"
    using conf_colour [OF e2', of R] by (simp add: s3_def)
  note g1 = conf_left_rotate [OF f1, folded s4_def]
  have g2: "conf N s4 ((Rt, B, z, (Node R unc g r)) # cs) p z (Node R l p sib)"
    using conf_down_Rt [OF g1(1)] conf_reads [OF g1(1)] by simp
  have ex: "rbt_insert_fixup_loop s4 p = Some (s4, p)"
    by (rule ins_fix_exit [OF g2]) simp
  have fr2: "frame N s1 s2" unfolding s2_def by (rule frame_colour [OF mem(1)])
  have fr3: "frame N s2 s3" unfolding s3_def by (rule frame_colour [OF mem(3)])
  have fr: "frame N s s4"
    by (rule frame_trans [OF frame_trans [OF frame_trans [OF d1(2) fr2] fr3] g1(2)])
  have nr: "z \<noteq> root s" by (rule conf_not_root [OF c]) simp
  have pu: "p \<noteq> ptr (NIL s) unc"
    using ptr_cases [of "NIL s" unc] c2' by (auto simp: conf_def focus_def)
  have zs: "z \<noteq> ptr (NIL s) sib"
    using ptr_cases [of "NIL s" sib] c by (auto simp: conf_def focus_def)
  have reads: "PARENT s z = p" "PARENT s p = g" "RIGHT s g = p" "LEFT s p = z"
    "COLOR s p = 1" "COLOR s (LEFT s g) = 0" "LEFT s g \<noteq> p" "p \<noteq> LEFT s g"
    "RIGHT s p \<noteq> z" "z \<noteq> RIGHT s p"
    using rz rp rg c1(2) c2(2) conf_child_colour [OF c2'] u pu zs by simp_all
  have reads1: "PARENT s1 p = z" "PARENT s1 z = g"
    using conf_reads(1) [OF dp] conf_reads(1) [OF d1(1)] c2(2) by simp_all
  have "rbt_insert_fixup_loop s z = rbt_insert_fixup_loop s4 p"
    by (subst rbt_insert_fixup_loop_step)
       (simp_all add: nr reads Let_def s1_def [symmetric] reads1 s2_def s3_def s4_def
          fld_SET_COLOR [OF ok] mem)
  then show ?thesis using g1(1) ex fr by auto
qed

lemma inorder_node_colour: "inorder (node d c t a sib) = inorder (node d c' t a sib)"
  by (cases d) simp_all

lemma ins_fixup_step_Lt:
  assumes c: "conf N s ((d, R, p, sib) # (Lt, B, g, unc) # cs) z par (Node R l z r)"
    and po: "path_ok ((d, R, p, sib) # (Lt, B, g, unc) # cs) (black_height (Node R l z r))"
    and z: "no_red_red (Node R l z r)" "balanced (Node R l z r)"
  shows "(\<exists>s' l' r' par'. rbt_insert_fixup_loop s z = rbt_insert_fixup_loop s' g
            \<and> conf N s' cs g par' (Node R l' g r') \<and> path_ok cs (black_height l')
            \<and> no_red_red (Node R l' g r') \<and> balanced (Node R l' g r')
            \<and> inorder (Node R l' g r') = inorder (node Lt B (node d R (Node R l z r) p sib) g unc)
            \<and> frame N s s')
       \<or> (\<exists>s' bp T par'. rbt_insert_fixup_loop s z = Some (s', bp)
            \<and> conf N s' cs (ptr (NIL s') T) par' T \<and> red_black (fill cs T)
            \<and> inorder T = inorder (node Lt B (node d R (Node R l z r) p sib) g unc)
            \<and> frame N s s')"
proof (cases "colour_of unc")
  case R
  then obtain ul u ur where unc: "unc = Node R ul u ur" by (cases unc) auto
  obtain s' where s': "rbt_insert_fixup_loop s z = rbt_insert_fixup_loop s' g"
    "conf N s' cs g (PARENT s' g) (Node R (node d B (Node R l z r) p sib) g (Node B ul u ur))"
    "frame N s s'"
    using ins_red_uncle_Lt [OF c [unfolded unc]] by blast
  have "path_ok cs (Suc (black_height (Node R l z r)))"
    "no_red_red (Node R (node d B (Node R l z r) p sib) g (Node B ul u ur))"
    "balanced (Node R (node d B (Node R l z r) p sib) g (Node B ul u ur))"
    using po z by (cases d; simp add: unc)+
  moreover have "black_height (node d B (Node R l z r) p sib) = Suc (black_height (Node R l z r))"
    "black_height (Node B ul u ur) = Suc (black_height (Node R l z r))"
    using po z by (cases d; simp add: unc)+
  moreover have "inorder (Node R (node d B (Node R l z r) p sib) g (Node B ul u ur))
      = inorder (node Lt B (node d R (Node R l z r) p sib) g unc)"
    by (cases d) (simp_all add: unc)
  ultimately show ?thesis
    using s' by (intro disjI1 exI [of _ s'] exI [of _ "node d B (Node R l z r) p sib"]
        exI [of _ "Node B ul u ur"] exI [of _ "PARENT s' g"]) simp
next
  case B
  show ?thesis
  proof (cases d)
    case Lt
    obtain s' par' where s': "rbt_insert_fixup_loop s z = Some (s', z)"
      "conf N s' cs p par' (Node B (Node R l z r) p (Node R sib g unc))"
      "frame N s s'"
      using ins_black_uncle_outer_Lt [OF c [unfolded Lt] B] by blast
    have "red_black (fill cs (Node B (Node R l z r) p (Node R sib g unc)))"
      unfolding red_black_fill using po z B by (cases cs) (auto simp: Lt)
    moreover have "inorder (Node B (Node R l z r) p (Node R sib g unc))
      = inorder (node Lt B (node d R (Node R l z r) p sib) g unc)"
      by (simp add: Lt)
    ultimately show ?thesis
      using s' by (intro disjI2 exI [of _ s'] exI [of _ z]
          exI [of _ "(Node B (Node R l z r) p (Node R sib g unc))"] exI [of _ par']) simp
  next
    case Rt
    obtain s' par' where s': "rbt_insert_fixup_loop s z = Some (s', p)"
      "conf N s' cs z par' (Node B (Node R sib p l) z (Node R r g unc))"
      "frame N s s'"
      using ins_black_uncle_inner_Lt [OF c [unfolded Rt] B] by blast
    have "red_black (fill cs (Node B (Node R sib p l) z (Node R r g unc)))"
      unfolding red_black_fill using po z B by (cases cs) (auto simp: Rt)
    moreover have "inorder (Node B (Node R sib p l) z (Node R r g unc))
      = inorder (node Lt B (node d R (Node R l z r) p sib) g unc)"
      by (simp add: Rt)
    ultimately show ?thesis
      using s' by (intro disjI2 exI [of _ s'] exI [of _ p]
          exI [of _ "(Node B (Node R sib p l) z (Node R r g unc))"] exI [of _ par']) simp
  qed
qed

lemma ins_fixup_step_Rt:
  assumes c: "conf N s ((d, R, p, sib) # (Rt, B, g, unc) # cs) z par (Node R r z l)"
    and po: "path_ok ((d, R, p, sib) # (Rt, B, g, unc) # cs) (black_height (Node R r z l))"
    and z: "no_red_red (Node R r z l)" "balanced (Node R r z l)"
  shows "(\<exists>s' l' r' par'. rbt_insert_fixup_loop s z = rbt_insert_fixup_loop s' g
            \<and> conf N s' cs g par' (Node R r' g l') \<and> path_ok cs (black_height l')
            \<and> no_red_red (Node R r' g l') \<and> balanced (Node R r' g l')
            \<and> inorder (Node R r' g l') = inorder (node Rt B (node d R (Node R r z l) p sib) g unc)
            \<and> frame N s s')
       \<or> (\<exists>s' bp T par'. rbt_insert_fixup_loop s z = Some (s', bp)
            \<and> conf N s' cs (ptr (NIL s') T) par' T \<and> red_black (fill cs T)
            \<and> inorder T = inorder (node Rt B (node d R (Node R r z l) p sib) g unc)
            \<and> frame N s s')"
proof (cases "colour_of unc")
  case R
  then obtain ul u ur where unc: "unc = Node R ul u ur" by (cases unc) auto
  obtain s' where s': "rbt_insert_fixup_loop s z = rbt_insert_fixup_loop s' g"
    "conf N s' cs g (PARENT s' g) (Node R (Node B ul u ur) g (node d B (Node R r z l) p sib))"
    "frame N s s'"
    using ins_red_uncle_Rt [OF c [unfolded unc]] by blast
  have "path_ok cs (Suc (black_height (Node R r z l)))"
    "no_red_red (Node R (Node B ul u ur) g (node d B (Node R r z l) p sib))"
    "balanced (Node R (Node B ul u ur) g (node d B (Node R r z l) p sib))"
    using po z by (cases d; simp add: unc)+
  moreover have "black_height (node d B (Node R r z l) p sib) = Suc (black_height (Node R r z l))"
    "black_height (Node B ul u ur) = Suc (black_height (Node R r z l))"
    using po z by (cases d; simp add: unc)+
  moreover have "inorder (Node R (Node B ul u ur) g (node d B (Node R r z l) p sib))
      = inorder (node Rt B (node d R (Node R r z l) p sib) g unc)"
    by (cases d) (simp_all add: unc)
  ultimately show ?thesis
    using s' by (intro disjI1 exI [of _ s'] exI [of _ "node d B (Node R r z l) p sib"]
        exI [of _ "Node B ul u ur"] exI [of _ "PARENT s' g"]) simp
next
  case B
  show ?thesis
  proof (cases d)
    case Rt
    obtain s' par' where s': "rbt_insert_fixup_loop s z = Some (s', z)"
      "conf N s' cs p par' (Node B (Node R unc g sib) p (Node R r z l))"
      "frame N s s'"
      using ins_black_uncle_outer_Rt [OF c [unfolded Rt] B] by blast
    have "red_black (fill cs (Node B (Node R unc g sib) p (Node R r z l)))"
      unfolding red_black_fill using po z B by (cases cs) (auto simp: Rt)
    moreover have "inorder (Node B (Node R unc g sib) p (Node R r z l))
      = inorder (node Rt B (node d R (Node R r z l) p sib) g unc)"
      by (simp add: Rt)
    ultimately show ?thesis
      using s' by (intro disjI2 exI [of _ s'] exI [of _ z]
          exI [of _ "(Node B (Node R unc g sib) p (Node R r z l))"] exI [of _ par']) simp
  next
    case Lt
    obtain s' par' where s': "rbt_insert_fixup_loop s z = Some (s', p)"
      "conf N s' cs z par' (Node B (Node R unc g r) z (Node R l p sib))"
      "frame N s s'"
      using ins_black_uncle_inner_Rt [OF c [unfolded Lt] B] by blast
    have "red_black (fill cs (Node B (Node R unc g r) z (Node R l p sib)))"
      unfolding red_black_fill using po z B by (cases cs) (auto simp: Lt)
    moreover have "inorder (Node B (Node R unc g r) z (Node R l p sib))
      = inorder (node Rt B (node d R (Node R r z l) p sib) g unc)"
      by (simp add: Lt)
    ultimately show ?thesis
      using s' by (intro disjI2 exI [of _ s'] exI [of _ p]
          exI [of _ "(Node B (Node R unc g r) z (Node R l p sib))"] exI [of _ par']) simp
  qed
qed

lemma ins_fixup_go_Lt:
  assumes c: "conf N s ((d, R, p, sib) # (Lt, B, g, unc) # cs) z par (Node R l z r)"
    and po: "path_ok ((d, R, p, sib) # (Lt, B, g, unc) # cs) (black_height (Node R l z r))"
    and z: "no_red_red (Node R l z r)" "balanced (Node R l z r)"
    and IH: "\<And>s' par' l' r'. conf N s' cs g par' (Node R l' g r')
        \<Longrightarrow> path_ok cs (black_height (Node R l' g r'))
        \<Longrightarrow> no_red_red (Node R l' g r') \<Longrightarrow> balanced (Node R l' g r')
        \<Longrightarrow> \<exists>s'' bp T. rbt_insert_fixup_loop s' g = Some (s'', bp)
              \<and> conf N s'' [] (root s'') (NIL s'') T
              \<and> inorder T = inorder (fill cs (Node R l' g r'))
              \<and> no_red_red T \<and> balanced T \<and> frame N s' s''"
  shows "\<exists>s'' bp T. rbt_insert_fixup_loop s z = Some (s'', bp)
              \<and> conf N s'' [] (root s'') (NIL s'') T
              \<and> inorder T = inorder (fill ((d, R, p, sib) # (Lt, B, g, unc) # cs) (Node R l z r))
              \<and> no_red_red T \<and> balanced T \<and> frame N s s''"
  using ins_fixup_step_Lt [OF c po z]
proof (elim disjE exE conjE)
  fix s' l' r' par'
  assume a: "rbt_insert_fixup_loop s z = rbt_insert_fixup_loop s' g"
    "conf N s' cs g par' (Node R l' g r')" "path_ok cs (black_height l')"
    "no_red_red (Node R l' g r')" "balanced (Node R l' g r')"
    "inorder (Node R l' g r') = inorder (node Lt B (node d R (Node R l z r) p sib) g unc)"
    "frame N s s'"
  have "path_ok cs (black_height (Node R l' g r'))" using a(3,5) by simp
  from IH [OF a(2) this a(4,5)] obtain s'' bp T where
    b: "rbt_insert_fixup_loop s' g = Some (s'', bp)" "conf N s'' [] (root s'') (NIL s'') T"
      "inorder T = inorder (fill cs (Node R l' g r'))" "no_red_red T" "balanced T"
      "frame N s' s''"
    by blast
  have "inorder T = inorder (fill ((d, R, p, sib) # (Lt, B, g, unc) # cs) (Node R l z r))"
    using b(3) a(6) by (simp add: fill_node inorder_fill inorder_node_colour [of d B _ _ _ R])
  then show ?thesis
    using a(1) b frame_trans [OF a(7) b(6)] by (intro exI [of _ s''] exI [of _ bp] exI [of _ T]) simp
next
  fix s' bp T par'
  assume a: "rbt_insert_fixup_loop s z = Some (s', bp)" "conf N s' cs (ptr (NIL s') T) par' T"
    "red_black (fill cs T)"
    "inorder T = inorder (node Lt B (node d R (Node R l z r) p sib) g unc)" "frame N s s'"
  have "inorder (fill cs T) = inorder (fill ((d, R, p, sib) # (Lt, B, g, unc) # cs) (Node R l z r))"
    using a(4) by (simp add: fill_node inorder_fill)
  then show ?thesis
    using a conf_fill [OF a(2)]
    by (intro exI [of _ s'] exI [of _ bp] exI [of _ "fill cs T"]) (simp add: red_black_def)
qed

lemma ins_fixup_go_Rt:
  assumes c: "conf N s ((d, R, p, sib) # (Rt, B, g, unc) # cs) z par (Node R r z l)"
    and po: "path_ok ((d, R, p, sib) # (Rt, B, g, unc) # cs) (black_height (Node R r z l))"
    and z: "no_red_red (Node R r z l)" "balanced (Node R r z l)"
    and IH: "\<And>s' par' l' r'. conf N s' cs g par' (Node R r' g l')
        \<Longrightarrow> path_ok cs (black_height (Node R r' g l'))
        \<Longrightarrow> no_red_red (Node R r' g l') \<Longrightarrow> balanced (Node R r' g l')
        \<Longrightarrow> \<exists>s'' bp T. rbt_insert_fixup_loop s' g = Some (s'', bp)
              \<and> conf N s'' [] (root s'') (NIL s'') T
              \<and> inorder T = inorder (fill cs (Node R r' g l'))
              \<and> no_red_red T \<and> balanced T \<and> frame N s' s''"
  shows "\<exists>s'' bp T. rbt_insert_fixup_loop s z = Some (s'', bp)
              \<and> conf N s'' [] (root s'') (NIL s'') T
              \<and> inorder T = inorder (fill ((d, R, p, sib) # (Rt, B, g, unc) # cs) (Node R r z l))
              \<and> no_red_red T \<and> balanced T \<and> frame N s s''"
  using ins_fixup_step_Rt [OF c po z]
proof (elim disjE exE conjE)
  fix s' l' r' par'
  assume a: "rbt_insert_fixup_loop s z = rbt_insert_fixup_loop s' g"
    "conf N s' cs g par' (Node R r' g l')" "path_ok cs (black_height l')"
    "no_red_red (Node R r' g l')" "balanced (Node R r' g l')"
    "inorder (Node R r' g l') = inorder (node Rt B (node d R (Node R r z l) p sib) g unc)"
    "frame N s s'"
  have "path_ok cs (black_height (Node R r' g l'))" using a(3,5) by simp
  from IH [OF a(2) this a(4,5)] obtain s'' bp T where
    b: "rbt_insert_fixup_loop s' g = Some (s'', bp)" "conf N s'' [] (root s'') (NIL s'') T"
      "inorder T = inorder (fill cs (Node R r' g l'))" "no_red_red T" "balanced T"
      "frame N s' s''"
    by blast
  have "inorder T = inorder (fill ((d, R, p, sib) # (Rt, B, g, unc) # cs) (Node R r z l))"
    using b(3) a(6) by (simp add: fill_node inorder_fill inorder_node_colour [of d B _ _ _ R])
  then show ?thesis
    using a(1) b frame_trans [OF a(7) b(6)] by (intro exI [of _ s''] exI [of _ bp] exI [of _ T]) simp
next
  fix s' bp T par'
  assume a: "rbt_insert_fixup_loop s z = Some (s', bp)" "conf N s' cs (ptr (NIL s') T) par' T"
    "red_black (fill cs T)"
    "inorder T = inorder (node Rt B (node d R (Node R r z l) p sib) g unc)" "frame N s s'"
  have "inorder (fill cs T) = inorder (fill ((d, R, p, sib) # (Rt, B, g, unc) # cs) (Node R r z l))"
    using a(4) by (simp add: fill_node inorder_fill)
  then show ?thesis
    using a conf_fill [OF a(2)]
    by (intro exI [of _ s'] exI [of _ bp] exI [of _ "fill cs T"]) (simp add: red_black_def)
qed

lemma ins_fixup_loop:
  assumes "conf N s cs z par (Node R l z r)"
    and "path_ok cs (black_height (Node R l z r))"
    and "no_red_red (Node R l z r)" and "balanced (Node R l z r)"
  shows "\<exists>s' bp T. rbt_insert_fixup_loop s z = Some (s', bp)
            \<and> conf N s' [] (root s') (NIL s') T
            \<and> inorder T = inorder (fill cs (Node R l z r))
            \<and> no_red_red T \<and> balanced T \<and> frame N s s'"
  using assms
proof (induction "length cs" arbitrary: cs s z par l r rule: less_induct)
  case less
  note c = less.prems(1) and po = less.prems(2) and zz = less.prems(3,4)
  let ?Z = "Node R l z r"
  consider (stop) "cs = [] \<or> top_colour cs = B"
    | (go) d p sib d' g unc cs' where "cs = (d, R, p, sib) # (d', B, g, unc) # cs'"
  proof (cases cs)
    case Nil
    then show ?thesis using stop by simp
  next
    case (Cons st cs1)
    obtain d cp p sib where st: "st = (d, cp, p, sib)" by (cases st)
    show ?thesis
    proof (cases cp)
      case B
      then show ?thesis using stop by (simp add: Cons st)
    next
      case R
      then obtain d' g unc cs' where "cs1 = (d', B, g, unc) # cs'"
        using po by (cases cs1) (auto simp: Cons st)
      then show ?thesis using go by (simp add: Cons st R)
    qed
  qed
  then show ?case
  proof cases
    case stop
    have "rbt_insert_fixup_loop s z = Some (s, z)" by (rule ins_fix_exit [OF c stop])
    moreover have "conf N s [] (root s) (NIL s) (fill cs ?Z)" by (rule conf_fill [OF c])
    moreover have "no_red_red (fill cs ?Z) \<and> balanced (fill cs ?Z)"
    proof (cases cs)
      case Nil
      then show ?thesis using zz by simp
    next
      case (Cons st cs1)
      have "red_black (fill cs ?Z)"
        unfolding red_black_fill using po zz stop by (simp add: Cons)
      then show ?thesis by (simp add: red_black_def)
    qed
    ultimately show ?thesis
      by (intro exI [of _ s] exI [of _ z] exI [of _ "fill cs ?Z"]) simp
  next
    case go
    have len: "length cs' < length cs" by (simp add: go)
    show ?thesis
    proof (cases d')
      case Lt
      show ?thesis
        unfolding go Lt
        by (rule ins_fixup_go_Lt [OF c [unfolded go Lt] po [unfolded go Lt] zz])
           (rule less.hyps [OF len])
    next
      case Rt
      show ?thesis
        unfolding go Rt
        by (rule ins_fixup_go_Rt [OF c [unfolded go Rt] po [unfolded go Rt] zz])
           (rule less.hyps [OF len])
    qed
  qed
qed

section \<open>Insertion into the tree\<close>

lemma ins_fixup:
  assumes c: "conf N s cs z par (Node R l z r)"
    and po: "path_ok cs (black_height (Node R l z r))"
    and z: "no_red_red (Node R l z r)" "balanced (Node R l z r)"
  shows "\<exists>s' T. rbt_insert_fixup s z = Some s' \<and> conf N s' [] (root s') (NIL s') T
            \<and> inorder T = inorder (fill cs (Node R l z r)) \<and> red_black T \<and> frame N s s'"
proof -
  obtain s1 bp T where l: "rbt_insert_fixup_loop s z = Some (s1, bp)"
    "conf N s1 [] (root s1) (NIL s1) T" "inorder T = inorder (fill cs (Node R l z r))"
    "no_red_red T" "balanced T" "frame N s s1"
    using ins_fixup_loop [OF c po z] by blast
  have "T \<noteq> Leaf" using l(3) by (auto simp: inorder_fill)
  then obtain ct lt a rt where T: "T = Node ct lt a rt" by (cases T) auto
  have a: "a = root s1" using l(2) by (simp add: conf_def T)
  define s2 where "s2 = SET_COLOR s1 (root s1) 0"
  have l2: "conf N s1 [] a (NIL s1) (Node ct lt a rt)" using l(2) a by (simp add: T)
  have c2: "conf N s2 [] (root s1) (NIL s1) (Node B lt a rt)"
    using conf_colour [OF l2, of B] by (simp add: s2_def a)
  have g: "root s2 = root s1" "NIL s2 = NIL s1" by (simp_all add: s2_def)
  have "frame N s1 s2" unfolding s2_def
    by (rule frame_colour) (use conf_reads [OF l2] a in simp)
  then have fr: "frame N s s2" by (rule frame_trans [OF l(6)])
  have rb: "red_black (Node B lt a rt)" using l(4,5) by (simp add: T red_black_def)
  have "rbt_insert_fixup s z = Some s2" by (simp add: rbt_insert_fixup_def l(1) s2_def)
  then show ?thesis
    using c2 rb fr l(3) by (intro exI [of _ s2] exI [of _ "Node B lt a rt"]) (simp add: g T)
qed

lemma ins_descend:
  assumes "conf N s cs x par t" and "dir_ok s sz cs"
  shows "\<exists>cs' y. rbt_insert_loop s sz par x = Some y \<and> conf N s cs' (NIL s) y Leaf
            \<and> fill cs' Leaf = fill cs t \<and> dir_ok s sz cs'"
  using assms
proof (induction t arbitrary: cs x par)
  case Leaf
  then have "x = NIL s" by (simp add: conf_def)
  then show ?case using Leaf by (intro exI [of _ cs] exI [of _ par]) (simp add: rbt_insert_loop_NIL)
next
  case (Node c l a r)
  have x: "x = a" "a \<noteq> NIL s" using Node.prems by (simp_all add: conf_def)
  note c = Node.prems(1) [unfolded x(1)]
  show ?case
  proof (cases "sz < key s a")
    case True
    have "dir_ok s sz ((Lt, c, a, r) # cs)" using True Node.prems(2) by simp
    from Node.IH(1) [OF conf_down_Lt [OF c] this] obtain cs' y where
      "rbt_insert_loop s sz a (LEFT s a) = Some y" "conf N s cs' (NIL s) y Leaf"
      "fill cs' Leaf = fill ((Lt, c, a, r) # cs) l" "dir_ok s sz cs'" by blast
    then show ?thesis
      using True x by (intro exI [of _ cs'] exI [of _ y]) (simp add: rbt_insert_loop_step key_def)
  next
    case False
    have "dir_ok s sz ((Rt, c, a, l) # cs)" using False Node.prems(2) by simp
    from Node.IH(2) [OF conf_down_Rt [OF c] this] obtain cs' y where
      "rbt_insert_loop s sz a (RIGHT s a) = Some y" "conf N s cs' (NIL s) y Leaf"
      "fill cs' Leaf = fill ((Rt, c, a, l) # cs) r" "dir_ok s sz cs'" by blast
    then show ?thesis
      using False x by (intro exI [of _ cs'] exI [of _ y]) (simp add: rbt_insert_loop_step key_def)
  qed
qed

lemma dir_ok_bounds:
  assumes "sorted (map (key s) (before cs @ after cs))" and "dir_ok s sz cs"
  shows "(\<forall>x\<in>set (before cs). key s x \<le> sz) \<and> (\<forall>x\<in>set (after cs). sz \<le> key s x)"
  using assms
proof (induction cs)
  case Nil
  then show ?case by simp
next
  case (Cons st cs)
  obtain d c a sib where st: "st = (d, c, a, sib)" by (cases st)
  show ?case
  proof (cases d)
    case Lt
    have so: "sorted (map (key s) (before cs @ a # inorder sib @ after cs))"
      using Cons.prems(1) by (simp add: st Lt)
    then have "sorted (map (key s) (before cs @ after cs))"
      by (simp add: sorted_append)
    then have IH: "(\<forall>x\<in>set (before cs). key s x \<le> sz) \<and> (\<forall>x\<in>set (after cs). sz \<le> key s x)"
      using Cons.IH Cons.prems(2) by (simp add: st)
    have a: "sz < key s a" using Cons.prems(2) by (simp add: st Lt)
    have "\<forall>x\<in>set (inorder sib). key s a \<le> key s x" using so by (auto simp: sorted_append)
    then show ?thesis using IH a by (auto simp: st Lt intro: order_trans less_imp_le)
  next
    case Rt
    have so: "sorted (map (key s) (before cs @ inorder sib @ a # after cs))"
      using Cons.prems(1) by (simp add: st Rt)
    then have "sorted (map (key s) (before cs @ after cs))"
      by (simp add: sorted_append)
    then have IH: "(\<forall>x\<in>set (before cs). key s x \<le> sz) \<and> (\<forall>x\<in>set (after cs). sz \<le> key s x)"
      using Cons.IH Cons.prems(2) by (simp add: st)
    have a: "key s a \<le> sz" using Cons.prems(2) by (simp add: st Rt not_less)
    have "\<forall>x\<in>set (inorder sib). key s x \<le> key s a" using so by (auto simp: sorted_append)
    then show ?thesis using IH a by (auto simp: st Rt intro: order_trans)
  qed
qed

lemma sorted_insert_pos:
  assumes "sorted (map (key s) (before cs @ after cs))" and "dir_ok s (key s z) cs"
  shows "sorted (map (key s) (before cs @ z # after cs))"
  using assms dir_ok_bounds [OF assms] by (auto simp: sorted_append)

lemma frame_GET:
  assumes "frame N s s'" and "nodes_ok N" and "n \<in> N"
  shows "GET s' (HDRP n) = GET s (HDRP n)"
proof -
  have "mem s' x = mem s x" if "n - 4 \<le> x" "x < n" for x
  proof -
    have "\<forall>m\<in>N. x < m \<or> m + 32 \<le> x"
    proof
      fix m assume m: "m \<in> N"
      show "x < m \<or> m + 32 \<le> x"
        using nodes_okD [OF assms(2) m assms(3)] that by (auto simp: apart_def)
    qed
    then show ?thesis using assms(1) by (simp add: frame_def)
  qed
  moreover have "8 \<le> n" using nodes_ok_bound [OF assms(2,3)] by simp
  ultimately show ?thesis by (simp add: GET_def HDRP_def)
qed

lemma frame_key: "frame N s s' \<Longrightarrow> nodes_ok N \<Longrightarrow> n \<in> N \<Longrightarrow> key s' n = key s n"
  by (simp add: key_def GET_SIZE_def frame_GET)

lemma conf_other:
  assumes c: "conf N s cs p par t" and z: "z \<in> N" "z \<notin> path_nodes cs" "z \<notin> set (inorder t)"
    "z \<noteq> NIL s"
  shows "conf N (SET_PARENT s z v) cs p par t" "conf N (SET_LEFT s z v) cs p par t"
    "conf N (SET_RIGHT s z v) cs p par t" "conf N (SET_COLOR s z k) cs p par t"
proof -
  have ok: "nodes_ok N" and n: "NIL s \<in> N" and sub: "path_nodes cs \<subseteq> N" "set (inorder t) \<subseteq> N"
    using c by (auto simp: conf_def focus_def)
  note w = tree_at_write [OF ok z(1) sub(2) z(3)] path_at_write [OF ok z(1) sub(1) z(2)]
    fld_other [OF ok z(1) n]
  show "conf N (SET_PARENT s z v) cs p par t" "conf N (SET_LEFT s z v) cs p par t"
    "conf N (SET_RIGHT s z v) cs p par t" "conf N (SET_COLOR s z k) cs p par t"
    using c z(4) by (simp_all add: conf_def focus_def nil_ok_def w)
qed

lemma ins_link:
  assumes c: "conf N s cs (NIL s) y Leaf" and d: "dir_ok s sz cs"
    and z: "z \<in> N" "z \<notin> path_nodes cs" "z \<noteq> NIL s"
    and zf: "LEFT s z = NIL s" "RIGHT s z = NIL s"
  defines "s1 \<equiv> SET_PARENT s z y"
  defines "s2 \<equiv> (if y = NIL s1 then s1\<lparr>root := z\<rparr>
                 else (let y_size = GET_SIZE s1 (HDRP y) in
                       if sz < y_size then SET_LEFT s1 y z else SET_RIGHT s1 y z))"
  shows "conf N (SET_COLOR s2 z 1) cs z y (Node R Leaf z Leaf)"
    and "frame N s (SET_COLOR s2 z 1)"
proof -
  have ok: "nodes_ok N" and n: "NIL s \<in> N" and sub: "path_nodes cs \<subseteq> N"
    and pd: "path_distinct cs" and nil: "nil_ok s" and pa: "path_at s cs (NIL s) y"
    using c by (auto simp: conf_def focus_def)
  have y: "y \<in> N" by (rule conf_par [OF c])
  note rules = fld [OF ok] tree_at_write [OF ok] path_at_write [OF ok]
  have nz: "NIL s \<noteq> z" using z by simp
  show "conf N (SET_COLOR s2 z 1) cs z y (Node R Leaf z Leaf)"
  proof (cases cs)
    case Nil
    then have "y = NIL s" using conf_par(2) [OF c] by simp
    then show ?thesis
      using z zf n nil nz Nil pa ok
      by (simp add: conf_def focus_def nil_ok_def s1_def s2_def rules)
  next
    case (Cons st cs1)
    obtain dd cc a sib where st: "st = (dd, cc, a, sib)" by (cases st)
    have ya: "y = a" "a \<noteq> NIL s" using pa by (simp_all add: Cons st)
    have a: "a \<in> N" using y ya by simp
    have ne: "z \<noteq> a" "NIL s \<noteq> a" "NIL s \<noteq> z" using z ya by (auto simp: Cons st)
    note ne = ne ne [symmetric]
    have sets: "set (inorder sib) \<subseteq> N" "path_nodes cs1 \<subseteq> N" "z \<notin> set (inorder sib)"
      "z \<notin> path_nodes cs1" "a \<notin> set (inorder sib)" "a \<notin> path_nodes cs1"
      using sub z pd by (auto simp: Cons st)
    have k: "GET_SIZE s1 (HDRP a) = key s a"
      by (simp add: key_def GET_SIZE_def s1_def fld_SET_PARENT [OF ok z(1) a])
    show ?thesis
    proof (cases dd)
      case Lt
      then have lt: "sz < key s a" using d by (simp add: Cons st)
      have s2: "s2 = SET_LEFT s1 a z" using lt ya by (simp add: s2_def k [unfolded s1_def ya(1)] s1_def)
      show ?thesis
        using z zf n nil pa pd sub a sets ok
        by (simp add: conf_def focus_def nil_ok_def Cons st Lt s2 s1_def ya rules ne)
    next
      case Rt
      then have lt: "\<not> sz < key s a" using d by (simp add: Cons st)
      have s2: "s2 = SET_RIGHT s1 a z" using lt ya by (simp add: s2_def k [unfolded s1_def ya(1)] s1_def)
      show ?thesis
        using z zf n nil pa pd sub a sets ok
        by (simp add: conf_def focus_def nil_ok_def Cons st Rt s2 s1_def ya rules ne)
    qed
  qed
  have f1: "frame N s s1" unfolding s1_def by (rule frame_step [OF frame_refl z(1)])
  have f2: "frame N s s2"
    unfolding s2_def Let_def using f1 y
    by (auto intro: frame_root frame_step)
  show "frame N s (SET_COLOR s2 z 1)" by (rule frame_step [OF f2 z(1)])
qed

lemma rbt_insert_tree:
  assumes c: "conf N s [] (root s) (NIL s) t" and rb: "red_black t"
    and z: "z \<in> N" "z \<notin> set (inorder t)" "z \<noteq> NIL s"
    and zf: "LEFT s z = NIL s" "RIGHT s z = NIL s"
  shows "\<exists>s' t'. rbt_insert s z = Some s' \<and> conf N s' [] (root s') (NIL s') t' \<and> red_black t'
      \<and> mset (inorder t') = add_mset z (mset (inorder t))
      \<and> (sorted (map (key s) (inorder t)) \<longrightarrow> sorted (map (key s') (inorder t')))
      \<and> frame N s s'"
proof -
  let ?sz = "GET_SIZE s (HDRP z)"
  obtain cs y where d: "rbt_insert_loop s ?sz (NIL s) (root s) = Some y"
    "conf N s cs (NIL s) y Leaf" "fill cs Leaf = t" "dir_ok s ?sz cs"
    using ins_descend [OF c, of ?sz] by auto
  have ok: "nodes_ok N" using c by (simp add: conf_def focus_def)
  have zp: "z \<notin> path_nodes cs" using z(2) set_inorder_fill [of cs Leaf] by (simp add: d(3))
  define s1 where "s1 = SET_PARENT s z y"
  define s2 where "s2 = (if y = NIL s1 then s1\<lparr>root := z\<rparr>
                 else (let y_size = GET_SIZE s1 (HDRP y) in
                       if ?sz < y_size then SET_LEFT s1 y z else SET_RIGHT s1 y z))"
  define s3 where "s3 = SET_COLOR s2 z 1"
  note l = ins_link [OF d(2) d(4) z(1) zp z(3) zf, folded s1_def, folded s2_def, folded s3_def]
  have po: "path_ok cs 0" using rb unfolding d(3) [symmetric] red_black_fill by simp
  obtain s' T where f: "rbt_insert_fixup s3 z = Some s'" "conf N s' [] (root s') (NIL s') T"
    "inorder T = inorder (fill cs (Node R Leaf z Leaf))" "red_black T" "frame N s3 s'"
    using ins_fixup [OF l(1)] po by auto
  have fr: "frame N s s'" by (rule frame_trans [OF l(2) f(5)])
  have io: "inorder t = before cs @ after cs" "inorder T = before cs @ z # after cs"
    using f(3) d(3) [symmetric] by (simp_all add: inorder_fill)
  have "sorted (map (key s') (inorder T))" if so: "sorted (map (key s) (inorder t))"
  proof -
    have "sorted (map (key s) (inorder T))"
      unfolding io using so d(4) by (intro sorted_insert_pos) (simp_all add: io key_def)
    moreover have "set (inorder T) \<subseteq> N" using f(2) by (simp add: conf_def focus_def)
    ultimately show ?thesis
      using frame_key [OF fr ok] by (simp add: subset_iff cong: map_cong)
  qed
  moreover have "rbt_insert s z = rbt_insert_fixup s3 z"
    unfolding rbt_insert_def s3_def s2_def s1_def by (simp add: d(1) Let_def)
  ultimately show ?thesis
    using f(1,2,4) fr by (intro exI [of _ s'] exI [of _ T]) (simp add: io)
qed

lemma insert_free_block_tree:
  assumes c: "conf N s [] (root s) (NIL s) t" and rb: "red_black t"
    and z: "z \<in> N" "z \<notin> set (inorder t)" "z \<noteq> NIL s"
  shows "\<exists>s' t'. insert_free_block s z sz = Some s' \<and> conf N s' [] (root s') (NIL s') t'
      \<and> red_black t' \<and> mset (inorder t') = add_mset z (mset (inorder t))
      \<and> (sorted (map (key s) (inorder t)) \<longrightarrow> sorted (map (key s') (inorder t')))
      \<and> frame N s s'"
proof -
  have ok: "nodes_ok N" and n: "NIL s \<in> N" and sub: "set (inorder t) \<subseteq> N"
    using c by (auto simp: conf_def focus_def)
  define s1 where "s1 = SET_PARENT s z (NIL s)"
  define s2 where "s2 = SET_LEFT s1 z (NIL s1)"
  define s3 where "s3 = SET_RIGHT s2 z (NIL s2)"
  define s4 where "s4 = SET_COLOR s3 z 1"
  have g: "NIL s1 = NIL s" "NIL s2 = NIL s" "NIL s3 = NIL s" "NIL s4 = NIL s"
    "root s1 = root s" "root s2 = root s" "root s3 = root s" "root s4 = root s"
    by (simp_all add: s1_def s2_def s3_def s4_def)
  have c1: "conf N s1 [] (root s) (NIL s) t"
    using conf_other(1) [OF c z(1) _ z(2,3)] by (simp add: s1_def)
  have c2: "conf N s2 [] (root s) (NIL s) t"
    using conf_other(2) [OF c1 z(1) _ z(2)] z(3) by (simp add: s2_def g)
  have c3: "conf N s3 [] (root s) (NIL s) t"
    using conf_other(3) [OF c2 z(1) _ z(2)] z(3) by (simp add: s3_def g)
  have c4: "conf N s4 [] (root s4) (NIL s4) t"
    using conf_other(4) [OF c3 z(1) _ z(2), of 1] z(3) by (simp add: g) (simp add: s4_def)
  have fr: "frame N s s4"
    unfolding s4_def s3_def s2_def s1_def by (intro frame_step frame_refl z(1))
  have so4: "sorted (map (key s4) (inorder t)) = sorted (map (key s) (inorder t))"
    using frame_key [OF fr ok] sub by (simp add: subset_iff cong: map_cong)
  have zf: "LEFT s4 z = NIL s4" "RIGHT s4 z = NIL s4"
    using z n by (simp_all add: s4_def s3_def s2_def s1_def fld [OF ok])
  obtain s' t' where r: "rbt_insert s4 z = Some s'" "conf N s' [] (root s') (NIL s') t'"
    "red_black t'" "mset (inorder t') = add_mset z (mset (inorder t))"
    "sorted (map (key s) (inorder t)) \<longrightarrow> sorted (map (key s') (inorder t'))" "frame N s4 s'"
    using rbt_insert_tree [OF c4 rb z(1,2) _ zf] z(3) g so4 by auto
  have "insert_free_block s z sz = Some s'"
    using r(1) by (simp add: insert_free_block_def Let_def s1_def s2_def s3_def s4_def)
  then show ?thesis
    using r frame_trans [OF fr r(6)] by (intro exI [of _ s'] exI [of _ t']) simp
qed

text \<open>
  \<open>blocks_seg s bp bs q\<close>: walking from the block pointer \<open>bp\<close>, the blocks met are
  \<open>bs\<close>, and the walk then stands at \<open>q\<close>.
\<close>

fun blocks_seg :: "state \<Rightarrow> addr \<Rightarrow> addr list \<Rightarrow> addr \<Rightarrow> bool" where
  "blocks_seg s bp [] q \<longleftrightarrow> q = bp"
| "blocks_seg s bp (b # bs) q \<longleftrightarrow> bp = b \<and> block_ok s b \<and> blocks_seg s (NEXT_BLKP s b) bs q"

text \<open>
  \<open>same_outside lo hi s s'\<close>: the states \<open>s\<close> and \<open>s'\<close> differ at most in the bytes
  from \<open>lo\<close> up to \<open>hi\<close>.
\<close>

definition same_outside :: "addr \<Rightarrow> addr \<Rightarrow> state \<Rightarrow> state \<Rightarrow> bool" where
  "same_outside lo hi s s' \<longleftrightarrow>
     (\<forall>x. x < lo \<or> hi \<le> x \<longrightarrow> mem s' x = mem s x)
     \<and> mem_brk s' = mem_brk s \<and> mem_max_addr s' = mem_max_addr s
     \<and> heap_listp s' = heap_listp s \<and> NIL s' = NIL s \<and> root s' = root s"

text \<open>
  The part of the invariant that holds all through an operation, when a block
  that is marked free may still be on its way into the tree, or a block already
  taken out of the tree is not marked allocated yet: the prologue, the blocks
  and the epilogue are in place, and the tree is a red-black tree of distinct
  free blocks.  No bound on the length of the heap is part of it.
\<close>

definition heap_ok :: "state \<Rightarrow> addr list \<Rightarrow> tree \<Rightarrow> bool" where
  "heap_ok s bs t \<longleftrightarrow>
     8 \<le> NIL s \<and> NIL s + 40 \<le> heap_listp s \<and> heap_listp s + 8 \<le> mem_brk s
     \<and> mem_brk s < 18446744073709551616
     \<and> GET s (heap_listp s - WSIZE) = PACK DSIZE 1 \<and> GET s (heap_listp s) = PACK DSIZE 1
     \<and> blocks_at s (heap_listp s + DSIZE) bs
     \<and> tree_at s (root s) (NIL s) t \<and> nil_ok s \<and> red_black t
     \<and> distinct (inorder t) \<and> (\<forall>n\<in>set (inorder t). n \<in> set bs \<and> is_free s n)"

section \<open>The layout of the blocks\<close>

lemma blocks_at_app:
  "blocks_at s p (xs @ ys) \<longleftrightarrow> (\<exists>q. blocks_seg s p xs q \<and> blocks_at s q ys)"
  by (induction xs arbitrary: p) auto

lemma blocks_seg_app:
  "blocks_seg s p (xs @ ys) r \<longleftrightarrow> (\<exists>q. blocks_seg s p xs q \<and> blocks_seg s q ys r)"
  by (induction xs arbitrary: p) auto

lemma block_ok_size: "block_ok s b \<Longrightarrow> 48 \<le> unat (key s b)"
  by (simp add: block_ok_def key_def word_le_nat_alt)

lemma blocks_seg_bounds:
  "blocks_seg s p xs q \<Longrightarrow> p \<le> q \<and> (\<forall>b\<in>set xs. p \<le> b \<and> b + unat (key s b) \<le> q)"
proof (induction xs arbitrary: p)
  case Nil
  then show ?case by simp
next
  case (Cons x xs)
  have "NEXT_BLKP s x \<le> q \<and> (\<forall>b\<in>set xs. NEXT_BLKP s x \<le> b \<and> b + unat (key s b) \<le> q)"
    using Cons.IH [of "NEXT_BLKP s x"] Cons.prems by simp
  moreover have "NEXT_BLKP s x = x + unat (key s x)" by (simp add: NEXT_BLKP_def key_def HDRP_def)
  ultimately show ?case using Cons.prems by auto
qed

lemma blocks_at_bounds:
  "blocks_at s p ys \<Longrightarrow> p \<le> mem_brk s \<and> (\<forall>b\<in>set ys. p \<le> b \<and> b + unat (key s b) \<le> mem_brk s)"
proof (induction ys arbitrary: p)
  case Nil
  then show ?case by simp
next
  case (Cons x xs)
  have "NEXT_BLKP s x \<le> mem_brk s
      \<and> (\<forall>b\<in>set xs. NEXT_BLKP s x \<le> b \<and> b + unat (key s b) \<le> mem_brk s)"
    using Cons.IH [of "NEXT_BLKP s x"] Cons.prems by simp
  moreover have "NEXT_BLKP s x = x + unat (key s x)" by (simp add: NEXT_BLKP_def key_def HDRP_def)
  ultimately show ?case using Cons.prems by auto
qed

lemma blocks_at_ok: "blocks_at s p bs \<Longrightarrow> b \<in> set bs \<Longrightarrow> block_ok s b"
  by (induction bs arbitrary: p) auto

lemma blocks_seg_ok: "blocks_seg s p bs q \<Longrightarrow> b \<in> set bs \<Longrightarrow> block_ok s b"
  by (induction bs arbitrary: p) auto

lemma blocks_at_disj:
  assumes "blocks_at s p bs" and "a \<in> set bs" and "b \<in> set bs" and "a \<noteq> b"
  shows "a + unat (key s a) \<le> b \<or> b + unat (key s b) \<le> a"
  using assms
proof (induction bs arbitrary: p)
  case Nil
  then show ?case by simp
next
  case (Cons x xs)
  have n: "NEXT_BLKP s x = x + unat (key s x)" by (simp add: NEXT_BLKP_def key_def HDRP_def)
  have rest: "blocks_at s (NEXT_BLKP s x) xs" using Cons.prems by simp
  note bd = blocks_at_bounds [OF rest, unfolded n]
  consider "a = x" "b \<in> set xs" | "b = x" "a \<in> set xs" | "a \<in> set xs" "b \<in> set xs"
    using Cons.prems by auto
  then show ?case
  proof cases
    case 1
    then show ?thesis using bd by auto
  next
    case 2
    then show ?thesis using bd by auto
  next
    case 3
    then show ?thesis using Cons.IH [OF rest] Cons.prems(4) by simp
  qed
qed

lemma blocks_at_distinct: "blocks_at s p bs \<Longrightarrow> distinct bs"
proof (induction bs arbitrary: p)
  case Nil
  then show ?case by simp
next
  case (Cons x xs)
  have n: "NEXT_BLKP s x = x + unat (key s x)" by (simp add: NEXT_BLKP_def key_def HDRP_def)
  have rest: "blocks_at s (NEXT_BLKP s x) xs" and x: "block_ok s x" using Cons.prems by simp_all
  have "x \<notin> set xs" using blocks_at_bounds [OF rest, unfolded n] block_ok_size [OF x] by auto
  then show ?case using Cons.IH [OF rest] by simp
qed

lemma heap_nodes_ok:
  assumes "heap_ok s bs t"
  shows "nodes_ok (insert (NIL s) (set bs))"
proof -
  let ?p = "heap_listp s + 8"
  have b: "blocks_at s ?p bs" and g: "8 \<le> NIL s" "NIL s + 40 \<le> heap_listp s"
    "mem_brk s < 18446744073709551616" "heap_listp s + 8 \<le> mem_brk s"
    using assms by (simp_all add: heap_ok_def)
  note bd = blocks_at_bounds [OF b]
  have sz: "\<And>a. a \<in> set bs \<Longrightarrow> 48 \<le> unat (key s a)"
    using blocks_at_ok [OF b] block_ok_size by blast
  have ap: "a = c \<or> apart a c" if "a \<in> set bs" "c \<in> set bs" for a c
    using blocks_at_disj [OF b that] sz [OF that(1)] sz [OF that(2)] by (auto simp: apart_def)
  have nil: "apart (NIL s) a" if "a \<in> set bs" for a
    using bd that g by (auto simp: apart_def)
  have nil': "apart a (NIL s)" if "a \<in> set bs" for a
    using nil [OF that] by (auto simp: apart_def)
  have rng: "8 \<le> a \<and> a < 18446744073709551616" if "a \<in> set bs" for a
    using bd that g sz [OF that] by auto
  show ?thesis
    unfolding nodes_ok_def using ap nil nil' rng g by auto
qed

lemma heap_ok_conf:
  assumes "heap_ok s bs t"
  shows "conf (insert (NIL s) (set bs)) s [] (root s) (NIL s) t"
  using assms heap_nodes_ok [OF assms]
  by (auto simp: conf_def focus_def heap_ok_def)

lemma heap_inv_ok:
  assumes "heap_inv s bs t"
  shows "heap_ok s bs t"
proof -
  have b: "blocks_at s (heap_listp s + 8) bs"
    and m: "mset (inorder t) = mset (filter (is_free s) bs)"
    using assms by (simp_all add: heap_inv_def)
  have "distinct (filter (is_free s) bs)" using blocks_at_distinct [OF b] by simp
  then have d: "distinct (inorder t)" using m by (metis distinct_count_atmost_1 set_mset_mset)
  have "set (inorder t) = set (filter (is_free s) bs)" using m by (metis set_mset_mset)
  then show ?thesis using assms d by (auto simp: heap_inv_def heap_ok_def nil_ok_def)
qed

section \<open>Blocks and tree under changes of the memory\<close>

lemma block_words_eq:
  assumes "GET s' (HDRP b) = GET s (HDRP b)"
  shows "key s' b = key s b" "FTRP s' b = FTRP s b" "NEXT_BLKP s' b = NEXT_BLKP s b"
    "is_free s' b = is_free s b"
  using assms by (simp_all add: key_def FTRP_def NEXT_BLKP_def GET_SIZE_def is_free_def
      GET_ALLOC_def HDRP_def)

lemma block_ok_eq:
  assumes "GET s' (HDRP b) = GET s (HDRP b)" and "GET s' (FTRP s b) = GET s (FTRP s b)"
  shows "block_ok s' b = block_ok s b"
  using assms block_words_eq [OF assms(1)] by (simp add: block_ok_def key_def)

lemma blocks_seg_cong:
  assumes "blocks_seg s p xs q"
    and "\<forall>b\<in>set xs. GET s' (HDRP b) = GET s (HDRP b) \<and> GET s' (FTRP s b) = GET s (FTRP s b)"
  shows "blocks_seg s' p xs q"
  using assms
proof (induction xs arbitrary: p)
  case Nil
  then show ?case by simp
next
  case (Cons x xs)
  have x: "GET s' (HDRP x) = GET s (HDRP x)" "GET s' (FTRP s x) = GET s (FTRP s x)"
    using Cons.prems(2) by simp_all
  have "blocks_seg s' (NEXT_BLKP s x) xs q" using Cons by simp
  then show ?case
    using Cons.prems(1) by (simp add: block_ok_eq [OF x] block_words_eq [OF x(1)])
qed

lemma blocks_at_cong:
  assumes "blocks_at s p xs"
    and "\<forall>b\<in>set xs. GET s' (HDRP b) = GET s (HDRP b) \<and> GET s' (FTRP s b) = GET s (FTRP s b)"
    and "mem_brk s' = mem_brk s" and "GET s' (HDRP (mem_brk s)) = GET s (HDRP (mem_brk s))"
  shows "blocks_at s' p xs"
  using assms
proof (induction xs arbitrary: p)
  case Nil
  then show ?case by auto
next
  case (Cons x xs)
  have x: "GET s' (HDRP x) = GET s (HDRP x)" "GET s' (FTRP s x) = GET s (FTRP s x)"
    using Cons.prems(2) by simp_all
  have "blocks_at s' (NEXT_BLKP s x) xs" using Cons by simp
  then show ?case
    using Cons.prems(1) by (simp add: block_ok_eq [OF x] block_words_eq [OF x(1)])
qed

lemma frame_GET_out:
  assumes "frame N s s'" and "\<forall>n\<in>N. q + 4 \<le> n \<or> n + 32 \<le> q"
  shows "GET s' q = GET s q"
proof (rule GET_cong)
  fix a assume "q \<le> a" "a < q + 4"
  then have "\<forall>n\<in>N. a < n \<or> n + 32 \<le> a" using assms(2) by fastforce
  then show "mem s' a = mem s a" using assms(1) by (simp add: frame_def)
qed

lemma frame_words:
  assumes h: "heap_ok s bs t" and f: "frame (insert (NIL s) (set bs)) s s'"
  shows "\<forall>b\<in>set bs. GET s' (HDRP b) = GET s (HDRP b) \<and> GET s' (FTRP s b) = GET s (FTRP s b)"
    and "GET s' (HDRP (mem_brk s)) = GET s (HDRP (mem_brk s))"
    and "GET s' (heap_listp s - 4) = GET s (heap_listp s - 4)"
    and "GET s' (heap_listp s) = GET s (heap_listp s)"
proof -
  let ?N = "insert (NIL s) (set bs)"
  have b: "blocks_at s (heap_listp s + 8) bs" and g: "8 \<le> NIL s" "NIL s + 40 \<le> heap_listp s"
    "heap_listp s + 8 \<le> mem_brk s"
    using h by (simp_all add: heap_ok_def)
  note bd = blocks_at_bounds [OF b]
  have sz: "\<And>a. a \<in> set bs \<Longrightarrow> 48 \<le> unat (key s a)"
    using blocks_at_ok [OF b] block_ok_size by blast
  show "\<forall>b\<in>set bs. GET s' (HDRP b) = GET s (HDRP b) \<and> GET s' (FTRP s b) = GET s (FTRP s b)"
  proof
    fix a assume a: "a \<in> set bs"
    have "\<forall>n\<in>?N. HDRP a + 4 \<le> n \<or> n + 32 \<le> HDRP a"
    proof
      fix n assume n: "n \<in> ?N"
      show "HDRP a + 4 \<le> n \<or> n + 32 \<le> HDRP a"
      proof (cases "n = a \<or> n = NIL s")
        case True
        then show ?thesis using bd a g by (auto simp: HDRP_def)
      next
        case False
        then have "n \<in> set bs" "n \<noteq> a" using n by auto
        then show ?thesis
          using blocks_at_disj [OF b _ a, of n] sz [of n] sz [OF a] bd a g
          by (auto simp: HDRP_def)
      qed
    qed
    moreover have "\<forall>n\<in>?N. FTRP s a + 4 \<le> n \<or> n + 32 \<le> FTRP s a"
    proof
      fix n assume n: "n \<in> ?N"
      have F: "FTRP s a = a + unat (key s a) - 8" by (simp add: FTRP_def key_def)
      show "FTRP s a + 4 \<le> n \<or> n + 32 \<le> FTRP s a"
      proof (cases "n = a \<or> n = NIL s")
        case True
        then show ?thesis using bd a g sz [OF a] by (auto simp: F)
      next
        case False
        then have "n \<in> set bs" "n \<noteq> a" using n by auto
        then show ?thesis
          using blocks_at_disj [OF b _ a, of n] sz [of n] sz [OF a] bd a g
          by (auto simp: F)
      qed
    qed
    ultimately show "GET s' (HDRP a) = GET s (HDRP a) \<and> GET s' (FTRP s a) = GET s (FTRP s a)"
      using frame_GET_out [OF f] by simp
  qed
  have "\<forall>n\<in>?N. HDRP (mem_brk s) + 4 \<le> n \<or> n + 32 \<le> HDRP (mem_brk s)"
    using bd g sz by (fastforce simp: HDRP_def)
  then show "GET s' (HDRP (mem_brk s)) = GET s (HDRP (mem_brk s))" by (rule frame_GET_out [OF f])
  have "\<forall>n\<in>?N. heap_listp s - 4 + 4 \<le> n \<or> n + 32 \<le> heap_listp s - 4"
    using bd g by fastforce
  then show "GET s' (heap_listp s - 4) = GET s (heap_listp s - 4)" by (rule frame_GET_out [OF f])
  have "\<forall>n\<in>?N. heap_listp s + 4 \<le> n \<or> n + 32 \<le> heap_listp s"
    using bd g by fastforce
  then show "GET s' (heap_listp s) = GET s (heap_listp s)" by (rule frame_GET_out [OF f])
qed

lemma heap_ok_frame:
  assumes h: "heap_ok s bs t" and f: "frame (insert (NIL s) (set bs)) s s'"
    and c: "conf (insert (NIL s) (set bs)) s' [] (root s') (NIL s') t'"
    and rb: "red_black t'" and sub: "set (inorder t') \<subseteq> {b \<in> set bs. is_free s b}"
  shows "heap_ok s' bs t'"
    and "\<forall>b\<in>set bs. key s' b = key s b \<and> is_free s' b = is_free s b"
proof -
  note w = frame_words [OF h f]
  have g: "mem_brk s' = mem_brk s" "heap_listp s' = heap_listp s" "NIL s' = NIL s"
    using f by (simp_all add: frame_def)
  have b: "blocks_at s (heap_listp s + 8) bs" using h by (simp add: heap_ok_def)
  have b': "blocks_at s' (heap_listp s + 8) bs"
    by (rule blocks_at_cong [OF b w(1) g(1) w(2)])
  show k: "\<forall>b\<in>set bs. key s' b = key s b \<and> is_free s' b = is_free s b"
    using w(1) block_words_eq by blast
  show "heap_ok s' bs t'"
    using h c rb sub k b' w(3,4)
    by (auto simp: heap_ok_def g conf_def focus_def)
qed

lemma insert_free_block_heap:
  assumes h: "heap_ok s bs t" and z: "z \<in> set bs" "z \<notin> set (inorder t)" "is_free s z"
  shows "\<exists>s' t'. insert_free_block s z sz = Some s' \<and> heap_ok s' bs t'
      \<and> set (inorder t') = insert z (set (inorder t))
      \<and> (sorted (map (key s) (inorder t)) \<longrightarrow> sorted (map (key s') (inorder t')))
      \<and> frame (insert (NIL s) (set bs)) s s'
      \<and> (\<forall>b\<in>set bs. key s' b = key s b \<and> is_free s' b = is_free s b)"
proof -
  let ?N = "insert (NIL s) (set bs)"
  have c: "conf ?N s [] (root s) (NIL s) t" by (rule heap_ok_conf [OF h])
  have rb: "red_black t" and g: "NIL s + 40 \<le> heap_listp s"
    and b: "blocks_at s (heap_listp s + 8) bs"
    and sub: "\<forall>n\<in>set (inorder t). n \<in> set bs \<and> is_free s n"
    using h by (simp_all add: heap_ok_def)
  have zn: "z \<noteq> NIL s" using blocks_at_bounds [OF b] z(1) g by auto
  obtain s' t' where r: "insert_free_block s z sz = Some s'"
    "conf ?N s' [] (root s') (NIL s') t'" "red_black t'"
    "mset (inorder t') = add_mset z (mset (inorder t))"
    "sorted (map (key s) (inorder t)) \<longrightarrow> sorted (map (key s') (inorder t'))" "frame ?N s s'"
    using insert_free_block_tree [OF c rb _ z(2) zn, of sz] z(1) by auto
  have st: "set (inorder t') = insert z (set (inorder t))"
    using r(4) by (metis set_mset_add_mset_insert set_mset_mset)
  then have "set (inorder t') \<subseteq> {b \<in> set bs. is_free s b}" using sub z by auto
  note hf = heap_ok_frame [OF h r(6) r(2,3) this]
  show ?thesis
    using r(1,5,6) st hf by (intro exI [of _ s'] exI [of _ t']) simp
qed

section \<open>Rewriting the words of a block\<close>

lemma same_outside_refl [simp]: "same_outside lo hi s s"
  by (simp add: same_outside_def)

lemma same_outside_trans:
  "same_outside lo hi s s' \<Longrightarrow> same_outside lo hi s' s'' \<Longrightarrow> same_outside lo hi s s''"
  by (simp add: same_outside_def)

lemma same_outside_PUT:
  "same_outside lo hi s s' \<Longrightarrow> lo \<le> q \<Longrightarrow> q + 4 \<le> hi \<Longrightarrow> same_outside lo hi s (PUT s' q v)"
  by (simp add: same_outside_def fields_PUT mem_PUT_out)

lemma same_outside_GET:
  assumes "same_outside lo hi s s'" and "q + 4 \<le> lo \<or> hi \<le> q"
  shows "GET s' q = GET s q"
  by (rule GET_cong) (use assms in \<open>auto simp: same_outside_def\<close>)

lemma same_outside_fields:
  assumes "same_outside lo hi s s'" and "n + 32 \<le> lo \<or> hi \<le> n"
  shows "PARENT s' n = PARENT s n" "LEFT s' n = LEFT s n" "RIGHT s' n = RIGHT s n"
    "COLOR s' n = COLOR s n"
proof -
  have m: "\<And>x. n \<le> x \<Longrightarrow> x < n + 32 \<Longrightarrow> mem s' x = mem s x"
    using assms by (auto simp: same_outside_def)
  show "PARENT s' n = PARENT s n" unfolding PARENT_def by (rule load_ptr_cong) (simp add: m)
  show "LEFT s' n = LEFT s n" unfolding LEFT_def by (rule load_ptr_cong) (simp add: m)
  show "RIGHT s' n = RIGHT s n" unfolding RIGHT_def by (rule load_ptr_cong) (simp add: m)
  show "COLOR s' n = COLOR s n" by (simp add: COLOR_def m)
qed

lemma blocks_seg_fun: "blocks_seg s p xs q \<Longrightarrow> blocks_seg s p xs q' \<Longrightarrow> q = q'"
  by (induction xs arbitrary: p) auto

lemma and7_not: "(sz :: u32) AND 7 = 0 \<Longrightarrow> sz AND NOT 7 = sz"
proof -
  assume a: "sz AND 7 = 0"
  have "sz = sz AND (7 OR NOT 7)" by simp
  also have "\<dots> = (sz AND 7) OR (sz AND NOT 7)" by (rule bit.conj_disj_distrib)
  also have "\<dots> = sz AND NOT 7" by (simp add: a)
  finally show ?thesis by simp
qed

lemma and7_1: "(sz :: u32) AND 7 = 0 \<Longrightarrow> sz AND 1 = 0"
proof -
  assume a: "sz AND 7 = 0"
  have "sz AND 1 = sz AND (7 AND 1)" by simp
  also have "\<dots> = (sz AND 7) AND 1" by (simp only: and.assoc)
  finally show ?thesis by (simp add: a)
qed

lemma and7_not': "(sz :: u32) AND 7 = 0 \<Longrightarrow> sz AND - 8 = sz"
  using and7_not [of sz] by simp

lemma PACK_size: "(sz :: u32) AND 7 = 0 \<Longrightarrow> a = 0 \<or> a = 1 \<Longrightarrow> PACK sz a AND NOT 7 = sz"
  by (auto simp: PACK_def and7_not' bit.conj_disj_distrib2)

lemma PACK_alloc: "(sz :: u32) AND 7 = 0 \<Longrightarrow> a = 0 \<or> a = 1 \<Longrightarrow> sint (PACK sz a AND 1) = a"
  by (auto simp: PACK_def and7_1 bit.conj_disj_distrib2)

lemma GET_SIZE_and7: "GET_SIZE s p AND 7 = 0"
  by (simp add: GET_SIZE_def and.assoc)

lemma and7_iff: "(x :: u32) AND 7 = 0 \<longleftrightarrow> 8 dvd unat x"
proof -
  have "x AND 7 = take_bit 3 x" by (simp add: take_bit_eq_mask mask_eq_exp_minus_1)
  then have "unat (x AND 7) = unat x mod 8" by (simp add: unat_mod take_bit_eq_mod)
  then show ?thesis by (metis unat_eq_0 mod_eq_0_iff_dvd unat_0)
qed

lemma GET_SIZE_dvd: "8 dvd unat (GET_SIZE s p)"
proof -
  have "GET_SIZE s p AND 7 = 0" by (simp add: GET_SIZE_def and.assoc)
  then show ?thesis by (simp add: and7_iff)
qed

lemma key_dvd: "8 dvd unat (key s b)"
  by (simp add: key_def GET_SIZE_dvd)

lemma adjust_size_fits:
  assumes c: "48 \<le> unat (c :: u32)" "8 dvd unat c" and n: "unat n \<le> unat c - 8"
  shows "adjust_size n \<le> c"
proof -
  define a0 :: u32 where "a0 = (if n \<le> 8 then 2 * 8 else 8 * ((n + 8 + (8 - 1)) div 8))"
  have e: "adjust_size n = word_of_int (MAX_int (sint a0) 48)"
    by (simp add: adjust_size_def a0_def)
  obtain k where k: "unat c = 8 * k" using c(2) by (auto simp: dvd_def)
  have "unat c < 4294967296" using unsigned_less [of c] by simp
  then have k32: "k \<le> 536870911" unfolding k by linarith
  show ?thesis
  proof (cases "sint a0 > 48")
    case True
    then have x: "adjust_size n = a0" by (simp add: e MAX_int_def)
    have "unat a0 \<le> unat c"
    proof (cases "n \<le> 8")
      case True
      then show ?thesis using c by (simp add: a0_def)
    next
      case False
      have n15: "unat n + 15 < 4294967296" using n k32 c(1) k by linarith
      have a: "unat (15 + n) = unat n + 15" using n15 by (simp add: unat_word_ariths)
      have b: "unat ((15 + n) div 8) = (unat n + 15) div 8" by (simp add: unat_div a)
      have "unat (8 * ((15 + n) div 8)) = 8 * ((unat n + 15) div 8)"
        using n15 by (simp add: unat_word_ariths b)
      moreover have "(unat n + 15) div 8 \<le> (8 * k + 7) div 8"
        by (intro div_le_mono) (use n c(1) k in linarith)
      then have "8 * ((unat n + 15) div 8) \<le> unat c" by (simp add: k)
      ultimately show ?thesis using False by (simp add: a0_def)
    qed
    then show ?thesis by (simp add: x word_le_nat_alt)
  next
    case False
    then have "adjust_size n = 48" by (simp add: e MAX_int_def)
    then show ?thesis using c by (simp add: word_le_nat_alt)
  qed
qed

lemma PACK_size':
  "(sz :: u32) AND 7 = 0 \<Longrightarrow> a = 0 \<or> a = 1 \<Longrightarrow> PACK sz a AND - 8 = sz"
  using PACK_size [of sz a] by simp

lemma block_written:
  assumes "GET s' (HDRP b) = PACK sz a" and "GET s' (b + unat sz - 8) = PACK sz a"
    and "48 \<le> unat sz" and "8 dvd unat sz" and "a = 0 \<or> a = 1"
  shows "block_ok s' b" "key s' b = sz" "is_free s' b \<longleftrightarrow> a = 0" "NEXT_BLKP s' b = b + unat sz"
proof -
  have z: "sz AND 7 = 0" using assms(4) by (simp add: and7_iff)
  note p = PACK_size [OF z assms(5)] PACK_alloc [OF z assms(5)]
  show k: "key s' b = sz" by (simp only: key_def GET_SIZE_def assms(1) p)
  show "block_ok s' b"
    using assms(2,3) k by (simp add: block_ok_def FTRP_def key_def assms(1) word_le_nat_alt)
  show "is_free s' b \<longleftrightarrow> a = 0" by (simp only: is_free_def GET_ALLOC_def assms(1) p)
  show "NEXT_BLKP s' b = b + unat sz" using k by (simp add: NEXT_BLKP_def key_def HDRP_def)
qed

lemma heap_ok_replace:
  assumes h: "heap_ok s (xs @ ms @ ys) t"
    and nt: "set ms \<inter> set (inorder t) = {}"
    and seg: "blocks_seg s (heap_listp s + 8) xs lo" "blocks_seg s lo ms hi"
    and so: "same_outside (lo - 4) (hi - 4) s s'"
    and seg': "blocks_seg s' lo ms' hi"
  shows "heap_ok s' (xs @ ms' @ ys) t"
    and "\<forall>b\<in>set xs \<union> set ys. key s' b = key s b \<and> is_free s' b = is_free s b"
proof -
  let ?p = "heap_listp s + 8"
  have g: "8 \<le> NIL s" "NIL s + 40 \<le> heap_listp s" "heap_listp s + 8 \<le> mem_brk s"
    and b: "blocks_at s ?p (xs @ ms @ ys)"
    and tr: "tree_at s (root s) (NIL s) t" and nil: "nil_ok s"
    and sub: "\<forall>n\<in>set (inorder t). n \<in> set (xs @ ms @ ys) \<and> is_free s n"
    using h by (simp_all add: heap_ok_def)
  have e: "mem_brk s' = mem_brk s" "heap_listp s' = heap_listp s" "NIL s' = NIL s"
    "root s' = root s"
    using so by (simp_all add: same_outside_def)
  obtain q1 q2 where q: "blocks_seg s ?p xs q1" "blocks_seg s q1 ms q2" "blocks_at s q2 ys"
    using b by (auto simp: blocks_at_app)
  have q1: "q1 = lo" by (rule blocks_seg_fun [OF q(1) seg(1)])
  have q2: "q2 = hi" using blocks_seg_fun [OF q(2) [unfolded q1] seg(2)] .
  note bx = blocks_seg_bounds [OF seg(1)] and bm = blocks_seg_bounds [OF seg(2)]
    and byy = blocks_at_bounds [OF q(3) [unfolded q2]]
  have szx: "\<And>a. a \<in> set xs \<Longrightarrow> 48 \<le> unat (key s a)"
    using blocks_seg_ok [OF seg(1)] block_ok_size by blast
  have szy: "\<And>a. a \<in> set ys \<Longrightarrow> 48 \<le> unat (key s a)"
    using blocks_at_ok [OF q(3)] block_ok_size by blast
  have wx: "\<forall>b\<in>set xs. GET s' (HDRP b) = GET s (HDRP b) \<and> GET s' (FTRP s b) = GET s (FTRP s b)"
  proof
    fix a assume a: "a \<in> set xs"
    have "HDRP a + 4 \<le> lo - 4" "FTRP s a + 4 \<le> lo - 4"
      using bx a szx [OF a] g by (auto simp: HDRP_def FTRP_def key_def)
    then show "GET s' (HDRP a) = GET s (HDRP a) \<and> GET s' (FTRP s a) = GET s (FTRP s a)"
      using same_outside_GET [OF so] by simp
  qed
  have wy: "\<forall>b\<in>set ys. GET s' (HDRP b) = GET s (HDRP b) \<and> GET s' (FTRP s b) = GET s (FTRP s b)"
  proof
    fix a assume a: "a \<in> set ys"
    have "hi - 4 \<le> HDRP a" "hi - 4 \<le> FTRP s a"
      using byy a szy [OF a] by (auto simp: HDRP_def FTRP_def key_def)
    then show "GET s' (HDRP a) = GET s (HDRP a) \<and> GET s' (FTRP s a) = GET s (FTRP s a)"
      using same_outside_GET [OF so] by simp
  qed
  have "hi - 4 \<le> HDRP (mem_brk s)" using byy by (auto simp: HDRP_def)
  then have we: "GET s' (HDRP (mem_brk s)) = GET s (HDRP (mem_brk s))"
    using same_outside_GET [OF so] by simp
  have "heap_listp s - 4 + 4 \<le> lo - 4" "heap_listp s + 4 \<le> lo - 4" using bx g by auto
  then have wp: "GET s' (heap_listp s - 4) = GET s (heap_listp s - 4)"
    "GET s' (heap_listp s) = GET s (heap_listp s)"
    using same_outside_GET [OF so] by simp_all
  have b1: "blocks_seg s' ?p xs lo" by (rule blocks_seg_cong [OF seg(1) wx])
  have b3: "blocks_at s' hi ys" by (rule blocks_at_cong [OF q(3) [unfolded q2] wy e(1) we])
  have b': "blocks_at s' ?p (xs @ ms' @ ys)"
    using b1 seg' b3 by (auto simp: blocks_at_app)
  show k: "\<forall>b\<in>set xs \<union> set ys. key s' b = key s b \<and> is_free s' b = is_free s b"
    using wx wy block_words_eq by blast
  have tn: "n \<in> set xs \<union> set ys" if "n \<in> set (inorder t)" for n
    using sub nt that by auto
  have fl: "n + 32 \<le> lo - 4 \<or> hi - 4 \<le> n" if "n \<in> set xs \<union> set ys" for n
    using that bx byy szx [of n] by auto
  have "tree_at s' (root s) (NIL s) t = tree_at s (root s) (NIL s) t"
    by (rule tree_at_cong) (use tn fl same_outside_fields [OF so] e in auto)
  then have tr': "tree_at s' (root s) (NIL s) t" using tr by simp
  have "NIL s + 32 \<le> lo - 4" using bx g by auto
  then have nil': "nil_ok s'"
    using nil same_outside_fields [OF so, of "NIL s"] by (simp add: nil_ok_def e)
  show "heap_ok s' (xs @ ms' @ ys) t"
    using h b' tr' nil' wp k tn sub
    by (auto simp: heap_ok_def e)
qed

section \<open>Splitting a block\<close>

lemma heap_ok_at:
  assumes h: "heap_ok s bs t" and p: "p \<in> set bs"
  shows "\<exists>xs ys. bs = xs @ p # ys \<and> blocks_seg s (heap_listp s + 8) xs p
      \<and> blocks_seg s p [p] (p + unat (key s p)) \<and> blocks_at s (p + unat (key s p)) ys
      \<and> block_ok s p \<and> heap_listp s + 8 \<le> p \<and> p + unat (key s p) \<le> mem_brk s"
proof -
  obtain xs ys where bs: "bs = xs @ p # ys" using p by (auto simp: in_set_conv_decomp)
  have b: "blocks_at s (heap_listp s + 8) bs" using h by (simp add: heap_ok_def)
  have n: "NEXT_BLKP s p = p + unat (key s p)" by (simp add: NEXT_BLKP_def key_def HDRP_def)
  obtain q where q: "blocks_seg s (heap_listp s + 8) xs q" "blocks_at s q (p # ys)"
    using b by (auto simp: bs blocks_at_app)
  then have "q = p" "block_ok s p" "blocks_at s (p + unat (key s p)) ys" by (simp_all add: n)
  then show ?thesis
    using q blocks_at_bounds [OF b] p by (intro exI [of _ xs] exI [of _ ys]) (simp add: bs n)
qed

lemma split_heap:
  fixes asize :: u32
  assumes h: "heap_ok s bs t" and p: "p \<in> set bs" "p \<notin> set (inorder t)"
    and a: "48 \<le> unat asize" "8 dvd unat asize" "asize \<le> key s p" "48 \<le> key s p - asize"
  defines "s1 \<equiv> PUT s (HDRP p) (PACK asize 1)"
  defines "s2 \<equiv> PUT s1 (FTRP s1 p) (PACK asize 1)"
  defines "nb \<equiv> NEXT_BLKP s2 p"
  defines "s3 \<equiv> PUT s2 (HDRP nb) (PACK (key s p - asize) 0)"
  defines "s4 \<equiv> PUT s3 (FTRP s3 nb) (PACK (key s p - asize) 0)"
  shows "\<exists>xs ys. bs = xs @ p # ys \<and> heap_ok s4 (xs @ p # nb # ys) t \<and> nb \<notin> set bs
      \<and> \<not> is_free s4 p \<and> is_free s4 nb \<and> key s4 p = asize \<and> key s4 nb = key s p - asize
      \<and> (\<forall>b\<in>set xs \<union> set ys. key s4 b = key s b \<and> is_free s4 b = is_free s b)
      \<and> same_outside (p - 4) (p + unat (key s p) - 4) s s4"
proof -
  define c where "c = key s p"
  define r where "r = c - asize"
  obtain xs ys where bs: "bs = xs @ p # ys" and seg: "blocks_seg s (heap_listp s + 8) xs p"
    "blocks_seg s p [p] (p + unat c)" and rest: "blocks_at s (p + unat c) ys"
    and pk: "block_ok s p" and pl: "heap_listp s + 8 \<le> p"
    using heap_ok_at [OF h p(1)] unfolding c_def by blast
  have ur: "unat r = unat c - unat asize" unfolding r_def using a(3) by (simp add: unat_sub c_def)
  have r48: "48 \<le> unat r" using a(4) by (simp add: r_def c_def word_le_nat_alt)
  have ac: "unat asize \<le> unat c" using a(3) by (simp add: c_def word_le_nat_alt)
  have r8: "8 dvd unat r" unfolding ur using a(2) key_dvd [of s p] by (simp add: c_def)
  define p0 where "p0 = p - 8"
  have p0: "p = p0 + 8" using pl by (simp add: p0_def)
  have uc: "unat c = unat asize + unat r" using ac ur by simp
  have z: "asize AND 7 = 0" "r AND 7 = 0" using a(2) r8 by (simp_all add: and7_iff)
  have e1: "s1 = PUT s (p0 + 4) (PACK asize 1)" by (simp add: s1_def HDRP_def p0 ac_simps)
  have f1: "FTRP s1 p = p0 + unat asize"
    by (simp add: FTRP_def GET_SIZE_def HDRP_def e1 GET_PUT_same PACK_size' [OF z(1)] p0 ac_simps)
  have e2: "s2 = PUT s1 (p0 + unat asize) (PACK asize 1)" by (simp add: s2_def f1)
  have g2: "GET s2 (p0 + 4) = PACK asize 1"
    using a(1) by (simp add: e2 e1 GET_PUT_same GET_PUT_other)
  have nb: "nb = p0 + 8 + unat asize"
    by (simp add: nb_def NEXT_BLKP_def GET_SIZE_def g2 [simplified ac_simps] PACK_size' [OF z(1)] p0 ac_simps)
  have e3: "s3 = PUT s2 (p0 + 4 + unat asize) (PACK r 0)"
    by (simp add: s3_def nb HDRP_def r_def c_def ac_simps)
  have f3: "FTRP s3 nb = p0 + unat asize + unat r"
    by (simp add: FTRP_def GET_SIZE_def HDRP_def nb e3 GET_PUT_same PACK_size' [OF z(2)] ac_simps)
  have e4: "s4 = PUT s3 (p0 + unat asize + unat r) (PACK r 0)"
    by (simp add: s4_def f3 r_def c_def)
  have w: "GET s4 (HDRP p) = PACK asize 1" "GET s4 (p + unat asize - 8) = PACK asize 1"
    "GET s4 (HDRP nb) = PACK r 0" "GET s4 (nb + unat r - 8) = PACK r 0"
    using a(1) r48
    by (simp_all add: e4 e3 e2 e1 nb p0 HDRP_def GET_PUT_same GET_PUT_other ac_simps)
  note b1 = block_written [OF w(1,2) a(1,2)] and b2 = block_written [OF w(3,4) r48 r8]
  have seg': "blocks_seg s4 p [p, nb] (p + unat c)"
    using b1 b2 by (simp add: nb uc p0 ac_simps)
  have so: "same_outside (p - 4) (p + unat c - 4) s s4"
    unfolding e4 e3 e2 e1 using a(1) r48
    by (intro same_outside_PUT same_outside_refl) (simp_all add: p0 uc ac_simps)
  have nt: "set [p] \<inter> set (inorder t) = {}" using p(2) by simp
  have h': "heap_ok s4 (xs @ [p, nb] @ ys) t"
    and k': "\<forall>b\<in>set xs \<union> set ys. key s4 b = key s b \<and> is_free s4 b = is_free s b"
    using heap_ok_replace [of s xs "[p]" ys t p "p + unat c" s4 "[p, nb]"] h nt seg so seg'
    by (simp_all add: bs)
  have "nb \<notin> set bs"
  proof
    assume m: "nb \<in> set bs"
    have b: "blocks_at s (heap_listp s + 8) bs" using h by (simp add: heap_ok_def)
    have "nb \<noteq> p" using a(1) by (simp add: nb p0)
    from blocks_at_disj [OF b m p(1) this, folded c_def] show False
      using a(1) r48 uc by (simp add: nb p0)
  qed
  then show ?thesis
    using h' k' b1 b2 so by (intro exI [of _ xs] exI [of _ ys]) (simp add: bs r_def c_def)
qed

section \<open>Reallocation inside the block\<close>

lemma same_outside_globals:
  assumes "same_outside lo hi s s'"
  shows "mem_brk s' = mem_brk s" "mem_max_addr s' = mem_max_addr s"
    "heap_listp s' = heap_listp s" "NIL s' = NIL s" "root s' = root s"
  using assms by (simp_all add: same_outside_def)

lemma frame_globals:
  assumes "frame N s s'"
  shows "mem_brk s' = mem_brk s" "mem_max_addr s' = mem_max_addr s"
    "heap_listp s' = heap_listp s" "NIL s' = NIL s"
  using assms by (simp_all add: frame_def)

lemma sorted_keys_eq:
  "\<forall>n\<in>set ns. key s' n = key s n \<Longrightarrow> sorted (map (key s') ns) = sorted (map (key s) ns)"
  by (simp cong: map_cong)

lemma realloc_shrink:
  assumes h: "heap_ok s bs t" and p: "p \<in> set bs" "\<not> is_free s p"
    and n: "n \<noteq> 0" "n \<le> key s p - 8"
  shows "\<exists>s' bs' t'. mm_realloc s p n = Some (p, s') \<and> heap_ok s' bs' t'
      \<and> (sorted (map (key s) (inorder t)) \<longrightarrow> sorted (map (key s') (inorder t')))
      \<and> ((\<forall>b\<in>set bs. is_free s b \<longrightarrow> b \<in> set (inorder t))
           \<longrightarrow> (\<forall>b\<in>set bs'. is_free s' b \<longrightarrow> b \<in> set (inorder t')))
      \<and> mem_brk s' = mem_brk s \<and> mem_max_addr s' = mem_max_addr s
      \<and> heap_listp s' = heap_listp s"
proof -
  define c where "c = key s p"
  define asize where "asize = adjust_size n"
  have b: "blocks_at s (heap_listp s + 8) bs"
    and sub: "\<forall>n\<in>set (inorder t). n \<in> set bs \<and> is_free s n"
    using h by (simp_all add: heap_ok_def)
  have pk: "block_ok s p" by (rule blocks_at_ok [OF b p(1)])
  have c48: "48 \<le> unat c" using block_ok_size [OF pk] by (simp add: c_def)
  have pn: "p \<noteq> NULL" using blocks_at_bounds [OF b] p(1) by auto
  have pt: "p \<notin> set (inorder t)" using sub p(2) by auto
  have "8 \<le> c" using c48 by (simp add: word_le_nat_alt)
  then have "unat (c - 8) = unat c - 8" by (simp add: unat_sub)
  then have "unat n \<le> unat c - 8" using n(2) by (simp add: c_def word_le_nat_alt)
  then have le: "asize \<le> c"
    unfolding asize_def using c48 key_dvd [of s p] by (intro adjust_size_fits) (simp_all add: c_def)
  note ar = adjust_size_range [of n, folded asize_def]
  show ?thesis
  proof (cases "48 \<le> c - asize")
    case False
    have "mm_realloc s p n = Some (p, s)"
      using n(1) pn le False
      by (simp add: mm_realloc_def Let_def asize_def c_def key_def)
    then show ?thesis using h by (intro exI [of _ s] exI [of _ bs] exI [of _ t]) simp
  next
    case True
    define s1 where "s1 = PUT s (HDRP p) (PACK asize 1)"
    define s2 where "s2 = PUT s1 (FTRP s1 p) (PACK asize 1)"
    define nb where "nb = NEXT_BLKP s2 p"
    define s3 where "s3 = PUT s2 (HDRP nb) (PACK (key s p - asize) 0)"
    define s4 where "s4 = PUT s3 (FTRP s3 nb) (PACK (key s p - asize) 0)"
    obtain xs ys where sp: "bs = xs @ p # ys" "heap_ok s4 (xs @ p # nb # ys) t" "nb \<notin> set bs"
      "\<not> is_free s4 p" "is_free s4 nb"
      "\<forall>b\<in>set xs \<union> set ys. key s4 b = key s b \<and> is_free s4 b = is_free s b"
      "same_outside (p - 4) (p + unat (key s p) - 4) s s4"
      using split_heap [OF h p(1) pt, of asize, folded s1_def, folded s2_def, folded nb_def,
          folded s3_def, folded s4_def] ar le True
      unfolding c_def by blast
    have nbt: "nb \<notin> set (inorder t)" using sub sp(3) by auto
    obtain s' t' where ins: "insert_free_block s4 nb (key s p - asize) = Some s'"
      "heap_ok s' (xs @ p # nb # ys) t'" "set (inorder t') = insert nb (set (inorder t))"
      "sorted (map (key s4) (inorder t)) \<longrightarrow> sorted (map (key s') (inorder t'))"
      "frame (insert (NIL s4) (set (xs @ p # nb # ys))) s4 s'"
      "\<forall>b\<in>set (xs @ p # nb # ys). key s' b = key s4 b \<and> is_free s' b = is_free s4 b"
      using insert_free_block_heap [OF sp(2) _ nbt sp(5), of "key s p - asize"] by auto
    have tk: "\<forall>n\<in>set (inorder t). key s4 n = key s n"
      using sub pt sp(6) by (auto simp: sp(1))
    have "mm_realloc s p n = Some (p, s')"
      using n(1) pn le True ins(1)
      by (simp add: mm_realloc_def Let_def asize_def [symmetric] c_def key_def [symmetric]
          s1_def [symmetric] s2_def [symmetric] nb_def [symmetric] s3_def [symmetric]
          s4_def [symmetric])
    moreover have "sorted (map (key s) (inorder t)) \<longrightarrow> sorted (map (key s') (inorder t'))"
      using ins(4) sorted_keys_eq [OF tk] by simp
    moreover have "(\<forall>b\<in>set bs. is_free s b \<longrightarrow> b \<in> set (inorder t))
           \<longrightarrow> (\<forall>b\<in>set (xs @ p # nb # ys). is_free s' b \<longrightarrow> b \<in> set (inorder t'))"
      using ins(3,6) sp(4,6) by (auto simp: sp(1))
    ultimately show ?thesis
      using ins(2) frame_globals [OF ins(5)] same_outside_globals [OF sp(7)]
      by (intro exI [of _ s'] exI [of _ "xs @ p # nb # ys"] exI [of _ t']) simp
  qed
qed

text \<open>
  Claim C4.  Let \<open>p\<close> be an allocated block of a heap whose blocks and tree are
  in place (\<open>heap_ok\<close>, which every heap between public operations satisfies,
  see \<open>heap_inv_ok\<close>), and let \<open>0 < n \<le> size_of(p) - 8\<close>.  Then \<^verbatim>\<open>mm_realloc(p, n)\<close>
  returns, and it returns the pointer \<open>p\<close>.  The adjusted size never exceeds the
  size of the block, also where the conversion to \<^verbatim>\<open>int\<close> turns it into 48; the
  tail that is split off goes into the tree, whose insertion terminates.
\<close>

theorem realloc_within_payload_keeps_pointer:
  assumes "heap_ok s bs t" and "p \<in> set bs" and "\<not> is_free s p"
    and "0 < n" and "n \<le> GET_SIZE s (HDRP p) - 8"
  shows "\<exists>s'. mm_realloc s p n = Some (p, s')"
proof -
  have "n \<noteq> 0" using assms(4) by auto
  then show ?thesis
    using realloc_shrink [OF assms(1-3), of n] assms(5) by (auto simp: key_def)
qed

theorem realloc_within_payload_keeps_pointer_witness:
  "\<exists>s s'. do { (r, s) \<leftarrow> mm_init (boot (\<lambda>_. 0)); (p, s) \<leftarrow> mm_malloc s 100; Some (p, s) }
             = Some (65552, s)
     \<and> heap_ok s [65552, 65664] (Node B Leaf 65664 Leaf)
     \<and> \<not> is_free s 65552 \<and> GET_SIZE s (HDRP 65552) = 112
     \<and> mm_realloc s 65552 40 = Some (65552, s')"
proof -
  have "\<exists>s. do { (r, s) \<leftarrow> mm_init (boot (\<lambda>_. 0)); (p, s) \<leftarrow> mm_malloc s 100; Some (p, s) }
             = Some (65552, s)
     \<and> heap_ok s [65552, 65664] (Node B Leaf 65664 Leaf)
     \<and> \<not> is_free s 65552 \<and> GET_SIZE s (HDRP 65552) = 112"
    by (simp add: run heap_ok_def nil_ok_def block_ok_def is_free_def red_black_def key_def
        del: prod.case case_prod_conv
        cong: let_weak_cong prod.case_cong_weak bind_option_cong_code)
  then obtain s where
    a: "do { (r, s) \<leftarrow> mm_init (boot (\<lambda>_. 0)); (p, s) \<leftarrow> mm_malloc s 100; Some (p, s) }
             = Some (65552, s)"
    and h: "heap_ok s [65552, 65664] (Node B Leaf 65664 Leaf)"
    and f: "\<not> is_free s 65552" and g: "GET_SIZE s (HDRP 65552) = 112"
    by blast
  obtain s' where "mm_realloc s 65552 40 = Some (65552, s')"
    using realloc_within_payload_keeps_pointer [OF h _ f, of 40] by (auto simp: g)
  then show ?thesis using a h f g by blast
qed

end
